theory Spec2Isabelle
  imports Main "HOL-Library.Sublist" "HOL-Library.List_Lexorder"
begin

section \<open>eatiht: extraction of article text from a parsed HTML document\<close>

text \<open>
  A shallow embedding of \<^verbatim>\<open>eatiht.py\<close>.  Python strings are \<^typ>\<open>string\<close>, the
  parsed document is a tree of elements and text nodes, the XPath query of the module is
  evaluated step by step over node positions, and the \<^verbatim>\<open>IndexError\<close> of
  \<^verbatim>\<open>most_common()[0]\<close> on an empty list is a value of a sum type.  Retrieval and parsing
  are outside the model: every function takes the parsed tree.
\<close>

subsection \<open>Characters and Python string primitives\<close>

text \<open>The class \<^verbatim>\<open>\s\<close> of the \<^verbatim>\<open>re\<close> module on \<^verbatim>\<open>str\<close> patterns, within one byte.\<close>

definition is_space :: "char \<Rightarrow> bool" where
  "is_space c \<longleftrightarrow> c \<in> set [CHR '' '', CHR 0x09, CHR 0x0A, CHR 0x0B, CHR 0x0C, CHR 0x0D,
                            CHR 0x1C, CHR 0x1D, CHR 0x1E, CHR 0x1F, CHR 0x85, CHR 0xA0]"

text \<open>The class \<^verbatim>\<open>\d\<close>.\<close>

definition is_digit :: "char \<Rightarrow> bool" where
  "is_digit c \<longleftrightarrow> c \<in> set ''0123456789''"

text \<open>Case folding of \<^verbatim>\<open>re.IGNORECASE\<close> on the letters of the pattern.\<close>

definition lower :: "char \<Rightarrow> char" where
  "lower c = (case map_of (zip ''ABCDEFGHIJKLMNOPQRSTUVWXYZ'' ''abcdefghijklmnopqrstuvwxyz'') c of
                None \<Rightarrow> c | Some l \<Rightarrow> l)"

text \<open>\<^verbatim>\<open>s.endswith(a)\<close> for one suffix.\<close>

definition ends_with :: "string \<Rightarrow> string \<Rightarrow> bool" where
  "ends_with s a \<longleftrightarrow> length a \<le> length s \<and> drop (length s - length a) s = a"

text \<open>\<^verbatim>\<open>sep.join(xs)\<close>.\<close>

fun join :: "string \<Rightarrow> string list \<Rightarrow> string" where
  "join sep [] = []"
| "join sep [x] = x"
| "join sep (x # y # ys) = x @ sep @ join sep (y # ys)"

text \<open>\<^verbatim>\<open>s.split(d)\<close> for a one-character separator: never an empty list.\<close>

fun split_on :: "char \<Rightarrow> string \<Rightarrow> string list" where
  "split_on d [] = [[]]"
| "split_on d (c # cs) =
     (let r = split_on d cs in if c = d then [] # r else (c # hd r) # tl r)"

text \<open>\<^verbatim>\<open>p in x\<close> on strings: \<open>p\<close> occurs in \<open>x\<close> as a contiguous substring.\<close>

fun starts_with :: "string \<Rightarrow> string \<Rightarrow> bool" where
  "starts_with x [] = True"
| "starts_with [] (c # p) = False"
| "starts_with (d # x) (c # p) = (c = d \<and> starts_with x p)"

fun in_str :: "string \<Rightarrow> string \<Rightarrow> bool" where
  "in_str p [] = (p = [])"
| "in_str p (c # x) = (starts_with (c # x) p \<or> in_str p x)"

text \<open>\<^verbatim>\<open>str(n)\<close> for a natural number.\<close>

fun str_nat :: "nat \<Rightarrow> string" where
  "str_nat n = (if n < 10 then [''0123456789'' ! n]
                else str_nat (n div 10) @ [''0123456789'' ! (n mod 10)])"

subsection \<open>Sentence segmentation\<close>

text \<open>
  \<^verbatim>\<open>bracket_pattern.sub('', s)\<close> with the pattern \<^verbatim>\<open>(\[\d*\])\<close>: scanning from the
  left, an opening bracket followed by a run of digits and a closing bracket is removed and
  the scan goes on after it; any other character is kept.
\<close>

function bracket_sub :: "string \<Rightarrow> string" where
  "bracket_sub [] = []"
| "bracket_sub (c # cs) =
     (if c = CHR ''['' then
        (case dropWhile is_digit cs of
           [] \<Rightarrow> c # bracket_sub cs
         | d # rest \<Rightarrow> if d = CHR '']'' then bracket_sub rest else c # bracket_sub cs)
      else c # bracket_sub cs)"
  by pat_completeness auto
termination
proof (relation "measure length")
  fix c :: char and cs d rest
  assume "dropWhile is_digit cs = d # rest"
  then have "length (d # rest) \<le> length cs"
    by (metis length_dropWhile_le)
  then show "(rest, c # cs) \<in> measure length" by simp
qed auto

text \<open>The six abbreviations of the negative lookbehinds, matched ignoring case.\<close>

definition abbreviations :: "string list" where
  "abbreviations = [''mr.'', ''mrs.'', ''jr.'', ''dr.'', ''prof.'', ''sr.'']"

text \<open>
  The lookbehinds of \<^verbatim>\<open>sentence_token_pattern\<close> at a position, \<open>seen\<close> being the text
  before it: the text ends in one of \<^verbatim>\<open>.!?\<close>, or in one of them and a quote, and it does
  not end in an abbreviation.
\<close>

definition lookbehind :: "string \<Rightarrow> bool" where
  "lookbehind seen \<longleftrightarrow>
     (case rev seen of
        [] \<Rightarrow> False
      | p # ps \<Rightarrow> p \<in> set ''.!?'' \<or>
                 (p \<in> set [CHR 0x27, CHR 0x22] \<and>
                  (case ps of [] \<Rightarrow> False | q # _ \<Rightarrow> q \<in> set ''.!?'')))
     \<and> \<not> (\<exists>a \<in> set abbreviations. ends_with (map lower seen) a)"

text \<open>
  \<^verbatim>\<open>sentence_token_pattern.split(s)\<close>: the pattern matches where the lookbehinds hold and
  a whitespace character follows, and \<^verbatim>\<open>\s+\<close> takes the whole run.  \<open>seen\<close> is the text
  before the scan position, \<open>piece\<close> the text since the last match.
\<close>

function split_from :: "string \<Rightarrow> string \<Rightarrow> string \<Rightarrow> string list" where
  "split_from seen piece [] = [piece]"
| "split_from seen piece (c # cs) =
     (if is_space c \<and> lookbehind seen
      then piece # split_from (seen @ c # takeWhile is_space cs) [] (dropWhile is_space cs)
      else split_from (seen @ [c]) (piece @ [c]) cs)"
  by pat_completeness auto
termination
  by (relation "measure (\<lambda>(seen, piece, rest). length rest)")
     (auto simp: length_dropWhile_le less_Suc_eq_le)

definition sentence_token_split :: "string \<Rightarrow> string list" where
  "sentence_token_split s = split_from [] [] s"

definition sentence_ending :: "char list" where
  "sentence_ending = [CHR ''.'', CHR 0x22, CHR ''?'', CHR ''!'', CHR 0x27]"

text \<open>\<^verbatim>\<open>s.endswith(tuple(sentence_ending))\<close>.\<close>

definition ends_sentence :: "string \<Rightarrow> bool" where
  "ends_sentence s \<longleftrightarrow> (\<exists>e \<in> set sentence_ending. ends_with s [e])"

text \<open>The fragments of one text that the extractor keeps, before any marker is added.\<close>

definition segment :: "string \<Rightarrow> string list" where
  "segment text = filter ends_sentence (sentence_token_split (bracket_sub text))"

subsection \<open>The document tree\<close>

datatype node = Text string | Element string "node list"

fun tag :: "node \<Rightarrow> string" where
  "tag (Text t) = []"
| "tag (Element t cs) = t"

fun is_element :: "node \<Rightarrow> bool" where
  "is_element (Text t) = False"
| "is_element (Element t cs) = True"

fun children :: "node \<Rightarrow> node list" where
  "children (Text t) = []"
| "children (Element t cs) = cs"

text \<open>A node is named by its position: the child indices on the way from the root.\<close>

type_synonym position = "nat list"

fun node_at :: "node \<Rightarrow> position \<Rightarrow> node option" where
  "node_at n [] = Some n"
| "node_at (Text t) (i # p) = None"
| "node_at (Element t cs) (i # p) = (if i < length cs then node_at (cs ! i) p else None)"

text \<open>All nodes of a tree in document order.\<close>

fun positions :: "node \<Rightarrow> position list"
  and positions_from :: "nat \<Rightarrow> node list \<Rightarrow> position list" where
  "positions (Text t) = [[]]"
| "positions (Element t cs) = [] # positions_from 0 cs"
| "positions_from i [] = []"
| "positions_from i (c # cs) = map ((#) i) (positions c) @ positions_from (Suc i) cs"

text \<open>\<^verbatim>\<open>''.join(n.xpath('.//text()'))\<close>: all text below a node, in document order.\<close>

fun text_content :: "node \<Rightarrow> string" where
  "text_content (Text t) = t"
| "text_content (Element t cs) = concat (map text_content cs)"

subsection \<open>Structural addresses\<close>

text \<open>
  \<^verbatim>\<open>getpath\<close>: one step per element on the way from the root, the tag name, with the
  1-based index among the siblings of the same tag when there is more than one of them.
\<close>

definition same_tag :: "string \<Rightarrow> node \<Rightarrow> bool" where
  "same_tag t n \<longleftrightarrow> is_element n \<and> tag n = t"

definition step_name :: "node list \<Rightarrow> nat \<Rightarrow> string" where
  "step_name cs i =
     (let t = tag (cs ! i);
          k = length (filter (same_tag t) (take i cs))
      in if k = 0 \<and> filter (same_tag t) (drop (Suc i) cs) = [] then t
         else t @ ''['' @ str_nat (Suc k) @ '']'')"

fun getpath_from :: "node \<Rightarrow> position \<Rightarrow> string" where
  "getpath_from n [] = []"
| "getpath_from (Text t) (i # p) = []"
| "getpath_from (Element t cs) (i # p) =
     (if i < length cs then ''/'' @ step_name cs i @ getpath_from (cs ! i) p else [])"

definition getpath :: "node \<Rightarrow> position \<Rightarrow> string" where
  "getpath root p = ''/'' @ tag root @ getpath_from root p"

subsection \<open>The text-finding query\<close>

text \<open>
  The query is the location path
  \<^verbatim>\<open>//body//*[not(self::script or ... or self::a)]/text()[string-length(normalize-space()) > N]/..\<close>.
  Each step maps a node-set to a node-set; a node-set holds every node once and the result
  comes in document order, which on positions is the lexicographic order.
\<close>

definition node_set :: "position list \<Rightarrow> position list" where
  "node_set ps = sort (remdups ps)"

definition xpath_step :: "(position \<Rightarrow> position list) \<Rightarrow> position list \<Rightarrow> position list" where
  "xpath_step axis ps = node_set (concat (map axis ps))"

definition tag_at :: "node \<Rightarrow> position \<Rightarrow> string option" where
  "tag_at root p = (case node_at root p of Some (Element t cs) \<Rightarrow> Some t | _ \<Rightarrow> None)"

definition text_at :: "node \<Rightarrow> position \<Rightarrow> string option" where
  "text_at root p = (case node_at root p of Some (Text t) \<Rightarrow> Some t | _ \<Rightarrow> None)"

text \<open>\<^verbatim>\<open>//body\<close> from the document node: every element named body.\<close>

definition all_bodies :: "node \<Rightarrow> position list" where
  "all_bodies root = node_set [p \<leftarrow> positions root. tag_at root p = Some ''body'']"

text \<open>\<^verbatim>\<open>//*\<close> from one node: the elements strictly below it.\<close>

definition descendant_elements :: "node \<Rightarrow> position \<Rightarrow> position list" where
  "descendant_elements root p =
     (case node_at root p of
        None \<Rightarrow> []
      | Some n \<Rightarrow> [p @ q. q \<leftarrow> positions n, q \<noteq> [], tag_at n q \<noteq> None])"

definition excluded_tags :: "string list" where
  "excluded_tags = [''script'', ''style'', ''i'', ''b'', ''strong'', ''span'', ''a'']"

text \<open>\<^verbatim>\<open>/text()\<close> from one node: its text children.\<close>

definition text_children :: "node \<Rightarrow> position \<Rightarrow> position list" where
  "text_children root p =
     (case node_at root p of
        Some (Element t cs) \<Rightarrow> [p @ [i]. i \<leftarrow> [0..<length cs], \<not> is_element (cs ! i)]
      | _ \<Rightarrow> [])"

text \<open>\<^verbatim>\<open>/..\<close> from one node: its parent; the root element's parent is not an element.\<close>

definition parent_axis :: "position \<Rightarrow> position list" where
  "parent_axis p = (if p = [] then [] else [butlast p])"

text \<open>XPath whitespace and \<^verbatim>\<open>normalize-space\<close>.\<close>

definition xml_space :: "char \<Rightarrow> bool" where
  "xml_space c \<longleftrightarrow> c \<in> set [CHR '' '', CHR 0x09, CHR 0x0A, CHR 0x0D]"

function xml_words :: "string \<Rightarrow> string list" where
  "xml_words s =
     (case dropWhile xml_space s of
        [] \<Rightarrow> []
      | c # cs \<Rightarrow> (c # takeWhile (\<lambda>x. \<not> xml_space x) cs) #
                 xml_words (dropWhile (\<lambda>x. \<not> xml_space x) cs))"
  by pat_completeness auto
termination
proof (relation "measure length")
  fix s :: string and c cs
  assume a: "dropWhile xml_space s = c # cs"
  have "length (dropWhile (\<lambda>x. \<not> xml_space x) cs) \<le> length cs"
    by (rule length_dropWhile_le)
  moreover have "length (c # cs) \<le> length s"
    by (metis a length_dropWhile_le)
  ultimately show "(dropWhile (\<lambda>x. \<not> xml_space x) cs, s) \<in> measure length"
    by simp
qed simp

definition normalize_space :: "string \<Rightarrow> string" where
  "normalize_space s = join '' '' (xml_words s)"

text \<open>The predicate \<^verbatim>\<open>[string-length(normalize-space()) > N]\<close> on a text node.\<close>

definition long_text :: "int \<Rightarrow> node \<Rightarrow> position \<Rightarrow> bool" where
  "long_text n root p \<longleftrightarrow>
     (case text_at root p of None \<Rightarrow> False | Some t \<Rightarrow> n < int (length (normalize_space t)))"

definition not_excluded :: "node \<Rightarrow> position \<Rightarrow> bool" where
  "not_excluded root p \<longleftrightarrow>
     (case tag_at root p of None \<Rightarrow> False | Some t \<Rightarrow> t \<notin> set excluded_tags)"

text \<open>The whole query, for the threshold \<open>n\<close>.\<close>

definition text_finder :: "int \<Rightarrow> node \<Rightarrow> position list" where
  "text_finder n root =
     (let elements = xpath_step (descendant_elements root) (all_bodies root);
          kept = filter (not_excluded root) elements;
          texts = filter (long_text n root) (xpath_step (text_children root) kept)
      in xpath_step parent_axis texts)"

text \<open>
  \<^verbatim>\<open>build_text_finder\<close> with the default \<^verbatim>\<open>leading_xpath\<close>: the query is
  \<^verbatim>\<open>TEXT_FINDER_XPATH\<close>, threshold 20, when \<^verbatim>\<open>min_str_length\<close> is \<^verbatim>\<open>False\<close> (here
  \<open>None\<close>), and the same query with the given threshold otherwise.  The result is the
  threshold of the query.
\<close>

definition build_text_finder :: "int option \<Rightarrow> int" where
  "build_text_finder min_str_length =
     (case min_str_length of None \<Rightarrow> 20 | Some n \<Rightarrow> n)"

subsection \<open>Ancestor frequency ranking\<close>

text \<open>
  \<^verbatim>\<open>Counter(xs)\<close>: a dictionary of counts that keeps its keys in the order of their first
  insertion, as an association list.
\<close>

fun counter_add :: "'a \<Rightarrow> ('a \<times> nat) list \<Rightarrow> ('a \<times> nat) list" where
  "counter_add k [] = [(k, 1)]"
| "counter_add k ((k', n) # kvs) =
     (if k = k' then (k', Suc n) # kvs else (k', n) # counter_add k kvs)"

definition Counter :: "'a list \<Rightarrow> ('a \<times> nat) list" where
  "Counter xs = foldl (\<lambda>m k. counter_add k m) [] xs"

text \<open>
  \<^verbatim>\<open>most_common()\<close> is \<^verbatim>\<open>sorted(items, key=itemgetter(1), reverse=True)\<close>: a stable sort,
  descending by count.
\<close>

definition most_common :: "('a \<times> nat) list \<Rightarrow> ('a \<times> nat) list" where
  "most_common kvs = sort_key (\<lambda>kv. - int (snd kv)) kvs"

definition parent_path :: "string \<Rightarrow> string" where
  "parent_path p = join ''/'' (butlast (split_on CHR ''/'' p))"

definition get_xpath_frequency_distribution :: "string list \<Rightarrow> (string \<times> nat) list" where
  "get_xpath_frequency_distribution paths = most_common (Counter (map parent_path paths))"

subsection \<open>Sentence units and the article\<close>

definition paragraph_break :: string where
  "paragraph_break = [CHR 0x0A, CHR 0x0A]"

text \<open>The inner loop of the comprehension, for one node of \<^verbatim>\<open>nodes_with_text\<close>.\<close>

definition sentence_pairs_of :: "string \<Rightarrow> string \<Rightarrow> (string \<times> string) list" where
  "sentence_pairs_of text path =
     [(if e = 0 then paragraph_break @ s else s, path).
        (e, s) \<leftarrow> enumerate 0 (sentence_token_split (bracket_sub text)), ends_sentence s]"

definition full_text :: "node \<Rightarrow> position \<Rightarrow> string" where
  "full_text root p = (case node_at root p of None \<Rightarrow> [] | Some n \<Rightarrow> text_content n)"

definition get_sentence_xpath_tuples :: "node \<Rightarrow> int \<Rightarrow> (string \<times> string) list" where
  "get_sentence_xpath_tuples root n =
     concat (map (\<lambda>p. sentence_pairs_of (full_text root p) (getpath root p))
                 (text_finder n root))"

text \<open>
  The exceptions: \<^verbatim>\<open>IndexError\<close>, which Python raises when a list is indexed out of
  range, and \<open>EmptyExtractionError\<close>, the dedicated "no content found" condition that the
  specification names.  The module defines no exception class, so no path of the model
  raises the second.
\<close>

datatype error = IndexError | EmptyExtractionError

text \<open>
  \<^verbatim>\<open>extract\<close>, named \<open>extract_text\<close> here.  Indexing the empty ranking raises
  \<^verbatim>\<open>IndexError\<close>.
\<close>

definition extract_text :: "node \<Rightarrow> int option \<Rightarrow> error + string" where
  "extract_text root min_str_length =
     (let xpath_to_text = build_text_finder min_str_length;
          sent_xpath_pairs = get_sentence_xpath_tuples root xpath_to_text;
          xpaths = map snd sent_xpath_pairs
      in case get_xpath_frequency_distribution xpaths of
           [] \<Rightarrow> Inl IndexError
         | max_path # _ \<Rightarrow>
             Inr (drop 2 (join '' '' [s. (s, x) \<leftarrow> sent_xpath_pairs, in_str (fst max_path) x])))"

text \<open>The top-ranked parent address of a document and the unit texts kept for it.\<close>

definition max_path :: "node \<Rightarrow> int option \<Rightarrow> string" where
  "max_path root m =
     fst (hd (get_xpath_frequency_distribution
                (map snd (get_sentence_xpath_tuples root (build_text_finder m)))))"

definition retained :: "node \<Rightarrow> int option \<Rightarrow> string list" where
  "retained root m =
     [s. (s, x) \<leftarrow> get_sentence_xpath_tuples root (build_text_finder m),
         in_str (max_path root m) x]"

subsection \<open>Notions of the specification\<close>

text \<open>The paragraph-break marker goes before the first fragment of a candidate only.\<close>

fun mark_first :: "string list \<Rightarrow> string list" where
  "mark_first [] = []"
| "mark_first (f # fs) = (paragraph_break @ f) # fs"

text \<open>The index of the first occurrence of \<open>x\<close> in \<open>xs\<close>.\<close>

definition first_index :: "'a \<Rightarrow> 'a list \<Rightarrow> nat" where
  "first_index x xs = length (takeWhile (\<lambda>y. y \<noteq> x) xs)"

text \<open>
  A structural address as its sequence of steps, and descent as the prefix relation on
  step sequences.
\<close>

definition address_steps :: "string \<Rightarrow> string list" where
  "address_steps x = split_on CHR ''/'' x"

definition descends :: "string \<Rightarrow> string \<Rightarrow> bool" where
  "descends P x \<longleftrightarrow> prefix (address_steps P) (address_steps x)"

text \<open>
  What the query selects, said of one node: an element strictly below a body element,
  of a tag that is not excluded, with at least one text child whose own normalized length
  exceeds the threshold.
\<close>

definition inside_body :: "node \<Rightarrow> position \<Rightarrow> bool" where
  "inside_body root p \<longleftrightarrow> (\<exists>j \<in> set [0..<length p]. tag_at root (take j p) = Some ''body'')"

definition has_long_text_node :: "int \<Rightarrow> node \<Rightarrow> bool" where
  "has_long_text_node n e \<longleftrightarrow>
     (\<exists>c \<in> set (children e). \<not> is_element c \<and> n < int (length (normalize_space (text_content c))))"

definition candidate :: "int \<Rightarrow> node \<Rightarrow> position \<Rightarrow> bool" where
  "candidate n root p \<longleftrightarrow>
     (case node_at root p of
        Some (Element t cs) \<Rightarrow>
          t \<notin> set excluded_tags \<and> inside_body root p \<and> has_long_text_node n (Element t cs)
      | _ \<Rightarrow> False)"

text \<open>
  The selection by the direct text content as a whole: the concatenation of the text
  children, normalized, is longer than the threshold, and the tag is not excluded.
\<close>

definition direct_text :: "node \<Rightarrow> string" where
  "direct_text e = concat (map text_content (filter (\<lambda>c. \<not> is_element c) (children e)))"

definition direct_text_candidate :: "int \<Rightarrow> node \<Rightarrow> position \<Rightarrow> bool" where
  "direct_text_candidate n root p \<longleftrightarrow>
     (case node_at root p of
        Some (Element t cs) \<Rightarrow>
          t \<notin> set excluded_tags \<and> n < int (length (normalize_space (direct_text (Element t cs))))
      | _ \<Rightarrow> False)"

text \<open>
  Going through a text position by position: \<open>f\<close> gets the text before the position and
  the text from the position on, and says what the position contributes.
\<close>

fun positionwise :: "(string \<Rightarrow> string \<Rightarrow> string) \<Rightarrow> string \<Rightarrow> string \<Rightarrow> string" where
  "positionwise f pre [] = []"
| "positionwise f pre (c # cs) = f pre (c # cs) @ positionwise f (pre @ [c]) cs"

text \<open>
  A bracketed numeric footnote marker: an opening bracket, digits or none, a closing
  bracket.  A position lies in a marker of the text when a marker occurs in the text
  around it: some end of the text before it and some non-empty start of the text from it
  on make up a marker.  \<open>without_markers\<close> drops exactly these positions.
\<close>

definition is_marker :: "string \<Rightarrow> bool" where
  "is_marker m \<longleftrightarrow>
     (case m of
        [] \<Rightarrow> False
      | c # r \<Rightarrow> c = CHR ''['' \<and> r \<noteq> [] \<and> last r = CHR '']'' \<and> list_all is_digit (butlast r))"

definition in_marker :: "string \<Rightarrow> string \<Rightarrow> bool" where
  "in_marker pre rest \<longleftrightarrow>
     list_ex (\<lambda>a. list_ex (\<lambda>b. b \<noteq> [] \<and> is_marker (a @ b)) (prefixes rest)) (suffixes pre)"

definition without_markers :: "string \<Rightarrow> string" where
  "without_markers t =
     positionwise (\<lambda>pre rest. if in_marker pre rest then [] else [hd rest]) [] t"

text \<open>
  The end of a sentence, in the words of the specification: the text ends in one of
  \<^verbatim>\<open>.!?\<close>, or in one of them followed by a quote character, and does not end in one of
  the six abbreviations, compared without regard to case.
\<close>

definition abbreviation_words :: "string list" where
  "abbreviation_words = [''Mr.'', ''Mrs.'', ''Jr.'', ''Dr.'', ''Prof.'', ''Sr.'']"

definition ends_in :: "string \<Rightarrow> char list \<Rightarrow> bool" where
  "ends_in s cs \<longleftrightarrow> s \<noteq> [] \<and> last s \<in> set cs"

definition sentence_boundary :: "string \<Rightarrow> bool" where
  "sentence_boundary s \<longleftrightarrow>
     (ends_in s ''.!?'' \<or> (ends_in s [CHR 0x27, CHR 0x22] \<and> ends_in (butlast s) ''.!?''))
     \<and> \<not> list_ex (\<lambda>a. suffix (map lower a) (map lower s)) abbreviation_words"

text \<open>
  An inter-sentence whitespace run is a maximal run of whitespace right after the end of
  a sentence.  A position lies in such a run when it holds whitespace and the text before
  it, without the whitespace at its end, is the end of a sentence.  \<open>collapse_gaps\<close> puts
  one blank for the first position of each such run, drops its other positions and keeps
  every other character, whitespace inside a sentence included.
\<close>

definition strip_trailing_space :: "string \<Rightarrow> string" where
  "strip_trailing_space s = rev (dropWhile is_space (rev s))"

definition sentence_gap :: "string \<Rightarrow> string \<Rightarrow> bool" where
  "sentence_gap pre rest \<longleftrightarrow>
     rest \<noteq> [] \<and> is_space (hd rest) \<and> sentence_boundary (strip_trailing_space pre)"

definition gap_collapsed :: "string \<Rightarrow> string \<Rightarrow> string" where
  "gap_collapsed pre rest =
     (if sentence_gap pre rest then (if pre \<noteq> [] \<and> is_space (last pre) then [] else '' '')
      else [hd rest])"

definition collapse_gaps :: "string \<Rightarrow> string" where
  "collapse_gaps t = positionwise gap_collapsed [] t"

text \<open>
  Two conditions on the scans that the proofs carry along: no marker lies across the scan
  position, and the scan position is not inside an inter-sentence run.
\<close>

definition no_marker_across :: "string \<Rightarrow> string \<Rightarrow> bool" where
  "no_marker_across pre rest \<longleftrightarrow>
     \<not> list_ex (\<lambda>a. a \<noteq> [] \<and> list_ex (\<lambda>b. b \<noteq> [] \<and> is_marker (a @ b)) (prefixes rest))
               (suffixes pre)"

definition not_in_gap :: "string \<Rightarrow> string \<Rightarrow> bool" where
  "not_in_gap pre rest \<longleftrightarrow>
     \<not> (pre \<noteq> [] \<and> is_space (last pre) \<and> sentence_boundary (strip_trailing_space pre)
        \<and> rest \<noteq> [] \<and> is_space (hd rest))"

text \<open>
  The invariant of the scan of \<open>split_from\<close>: the current piece is empty right after a
  match or at the start, and ends where the text seen so far ends otherwise.
\<close>

definition split_inv :: "string \<Rightarrow> string \<Rightarrow> bool" where
  "split_inv seen piece \<longleftrightarrow>
     (if piece = [] then seen = [] \<or> is_space (last seen)
      else seen \<noteq> [] \<and> last seen = last piece)"

subsection \<open>Example documents\<close>

text \<open>
  \<^verbatim>\<open><html><body><p><em>..</em><code>..</code><q>..</q></p><pre>..</pre></body></html>\<close>:
  three candidates below the paragraph and one in its sibling.
\<close>

definition doc_sibling :: node where
  "doc_sibling = Element ''html'' [
     Element ''body'' [
       Element ''p'' [
         Element ''em'' [Text ''First sentence of the article.''],
         Element ''code'' [Text ''Second sentence of the article.''],
         Element ''q'' [Text ''Third sentence of the article.'']],
       Element ''pre'' [Text ''Unrelated text in a sibling block.'']]]"

text \<open>A document whose only text is shorter than the threshold.\<close>

definition doc_short :: node where
  "doc_short = Element ''html'' [Element ''body'' [Element ''p'' [Text ''Too short.'']]]"

text \<open>A document whose only candidate has no sentence-ending character.\<close>

definition doc_heading :: node where
  "doc_heading = Element ''html'' [
     Element ''body'' [Element ''h1'' [Text ''A heading without any punctuation here'']]]"

text \<open>
  A title in the head, and a paragraph whose two text children are short each and long
  together.
\<close>

definition doc_split :: node where
  "doc_split = Element ''html'' [
     Element ''head'' [Element ''title'' [Text ''A page title that is long enough.'']],
     Element ''body'' [
       Element ''p'' [Text ''ten chars.'', Element ''b'' [Text ''x''], Text ''more chars..'']]]"

text \<open>A paragraph with two long text children around an inline element.\<close>

definition doc_two_texts :: node where
  "doc_two_texts = Element ''html'' [
     Element ''body'' [
       Element ''div'' [
         Element ''p'' [Text ''First long text node of the paragraph. '',
                        Element ''b'' [Text ''bold''],
                        Text '' Second long text node of the paragraph.'']]]]"

section \<open>Auxiliary facts\<close>

lemma ends_sentence_iff: "ends_sentence s \<longleftrightarrow> s \<noteq> [] \<and> last s \<in> set sentence_ending"
proof (cases s rule: rev_cases)
  case Nil
  then show ?thesis by (simp add: ends_sentence_def ends_with_def)
next
  case (snoc ys y)
  then show ?thesis by (auto simp: ends_sentence_def ends_with_def)
qed

lemma lookbehind_last:
  assumes "lookbehind seen"
  shows "seen \<noteq> [] \<and> last seen \<in> set sentence_ending \<and> \<not> is_space (last seen)"
proof (cases seen rule: rev_cases)
  case Nil
  with assms show ?thesis by (simp add: lookbehind_def)
next
  case (snoc ys y)
  with assms have "y \<in> set ''.!?'' \<or> y \<in> set [CHR 0x27, CHR 0x22]"
    by (auto simp: lookbehind_def)
  then have "y \<in> set sentence_ending \<and> \<not> is_space y"
    by (auto simp: sentence_ending_def is_space_def)
  with snoc show ?thesis by simp
qed

lemma split_from_not_Nil: "split_from seen piece rest \<noteq> []"
  by (induction seen piece rest rule: split_from.induct) auto

lemma takeWhile_space_last:
  "is_space c \<Longrightarrow> is_space (last (c # takeWhile is_space cs))"
  by (induction cs arbitrary: c) auto

lemma split_from_butlast_ends:
  "split_inv seen piece \<Longrightarrow> x \<in> set (butlast (split_from seen piece rest)) \<Longrightarrow> ends_sentence x"
proof (induction seen piece rest rule: split_from.induct)
  case (1 seen piece)
  then show ?case by simp
next
  case (2 seen piece c cs)
  show ?case
  proof (cases "is_space c \<and> lookbehind seen")
    case True
    then have lb: "seen \<noteq> [] \<and> last seen \<in> set sentence_ending \<and> \<not> is_space (last seen)"
      using lookbehind_last by blast
    with "2.prems"(1) have p: "piece \<noteq> [] \<and> last piece = last seen"
      by (auto simp: split_inv_def split: if_splits)
    then have ep: "ends_sentence piece"
      using lb by (simp add: ends_sentence_iff)
    have inv': "split_inv (seen @ c # takeWhile is_space cs) []"
      using True takeWhile_space_last[of c cs] by (simp add: split_inv_def)
    from "2.prems"(2) True
    have "x = piece \<or> x \<in> set (butlast (split_from (seen @ c # takeWhile is_space cs) [] (dropWhile is_space cs)))"
      by (simp add: split_from_not_Nil)
    then show ?thesis using ep "2.IH"(1)[OF True inv'] by blast
  next
    case False
    have inv': "split_inv (seen @ [c]) (piece @ [c])"
      by (simp add: split_inv_def)
    from "2.prems"(2) False
    have "x \<in> set (butlast (split_from (seen @ [c]) (piece @ [c]) cs))" by simp
    then show ?thesis using "2.IH"(2)[OF False inv'] by blast
  qed
qed

lemma split_from_step:
  "\<not> (is_space c \<and> lookbehind seen) \<Longrightarrow>
     split_from seen piece (c # cs) = split_from (seen @ [c]) (piece @ [c]) cs"
  by (subst split_from.simps) (simp only: if_False)

lemma split_from_match:
  "is_space c \<and> lookbehind seen \<Longrightarrow>
     split_from seen piece (c # cs) =
       piece # split_from (seen @ c # takeWhile is_space cs) [] (dropWhile is_space cs)"
  by simp

lemma split_inv_Nil: "split_inv [] []"
  by (simp add: split_inv_def)

lemma sentence_token_split_not_Nil: "sentence_token_split s \<noteq> []"
  by (simp add: sentence_token_split_def split_from_not_Nil)

lemma sentence_token_split_butlast:
  "x \<in> set (butlast (sentence_token_split s)) \<Longrightarrow> ends_sentence x"
  unfolding sentence_token_split_def using split_from_butlast_ends[OF split_inv_Nil] .

lemma enumerate_Suc_unmarked:
  "[(if e = 0 then A s else s, path). (e, s) \<leftarrow> enumerate (Suc k) xs, P s]
     = map (\<lambda>s. (s, path)) (filter P xs)"
  by (induction xs arbitrary: k) auto

lemma pairs_of_pieces:
  assumes "ps \<noteq> []" and "\<And>x. x \<in> set (butlast ps) \<Longrightarrow> P x"
  shows "[(if e = 0 then A @ s else s, path). (e, s) \<leftarrow> enumerate 0 ps, P s]
     = map (\<lambda>s. (s, path)) (case filter P ps of [] \<Rightarrow> [] | f # fs \<Rightarrow> (A @ f) # fs)"
proof (cases ps)
  case Nil
  with assms show ?thesis by simp
next
  case (Cons x xs)
  show ?thesis
  proof (cases "P x")
    case True
    then show ?thesis
      using Cons enumerate_Suc_unmarked[where A="\<lambda>s. A @ s" and path=path and k=0 and xs=xs and P=P] by simp
  next
    case False
    with assms(2) Cons have "xs = []" by (cases xs) auto
    with False Cons show ?thesis by simp
  qed
qed

lemma sentence_pairs_of_mark_first:
  "sentence_pairs_of text path = map (\<lambda>s. (s, path)) (mark_first (segment text))"
proof -
  let ?ps = "sentence_token_split (bracket_sub text)"
  have "[(if e = 0 then paragraph_break @ s else s, path). (e, s) \<leftarrow> enumerate 0 ?ps, ends_sentence s]
     = map (\<lambda>s. (s, path)) (case filter ends_sentence ?ps of [] \<Rightarrow> [] | f # fs \<Rightarrow> (paragraph_break @ f) # fs)"
    by (rule pairs_of_pieces[OF sentence_token_split_not_Nil sentence_token_split_butlast])
  moreover have "(case filter ends_sentence ?ps of [] \<Rightarrow> [] | f # fs \<Rightarrow> (paragraph_break @ f) # fs)
     = mark_first (segment text)"
    by (cases "filter ends_sentence ?ps") (simp_all add: segment_def)
  ultimately show ?thesis by (simp add: sentence_pairs_of_def)
qed

lemma join_Cons: "ys \<noteq> [] \<Longrightarrow> join sep (x # ys) = x @ sep @ join sep ys"
  by (cases ys) simp_all

lemma dropWhile_keeps_last:
  "xs \<noteq> [] \<Longrightarrow> \<not> P (last xs) \<Longrightarrow> dropWhile P xs \<noteq> [] \<and> last (dropWhile P xs) = last xs"
  by (induction xs) (auto split: if_splits)

lemma split_from_last_piece:
  "rest \<noteq> [] \<Longrightarrow> \<not> is_space (last rest) \<Longrightarrow>
   last (split_from seen piece rest) \<noteq> [] \<and> last (last (split_from seen piece rest)) = last rest"
proof (induction seen piece rest rule: split_from.induct)
  case (1 seen piece)
  then show ?case by simp
next
  case (2 seen piece c cs)
  show ?case
  proof (cases "is_space c \<and> lookbehind seen")
    case True
    with "2.prems" have cs: "cs \<noteq> []" "\<not> is_space (last cs)" by (auto split: if_splits)
    then have d: "dropWhile is_space cs \<noteq> [] \<and> last (dropWhile is_space cs) = last cs"
      by (rule dropWhile_keeps_last)
    then show ?thesis
      using "2.IH"(1)[OF True] cs by (simp add: split_from_match[OF True] split_from_not_Nil del: split_from.simps(2))
  next
    case False
    show ?thesis
    proof (cases "cs = []")
      case True
      then show ?thesis by (simp add: split_from_step[OF False] del: split_from.simps(2))
    next
      case nonempty: False
      then show ?thesis using "2.IH"(2)[OF False] "2.prems"
        by (simp add: split_from_step[OF False] del: split_from.simps(2))
    qed
  qed
qed

lemma bracket_sub_last:
  "t \<noteq> [] \<Longrightarrow> last t \<noteq> CHR '']'' \<Longrightarrow> bracket_sub t \<noteq> [] \<and> last (bracket_sub t) = last t"
proof (induction t rule: bracket_sub.induct)
  case 1
  then show ?case by simp
next
  case (2 c cs)
  show ?case
  proof (cases "c = CHR ''['' \<and> (\<exists>rest. dropWhile is_digit cs = CHR '']'' # rest)")
    case True
    then obtain rest where r: "dropWhile is_digit cs = CHR '']'' # rest" by blast
    have "cs = takeWhile is_digit cs @ CHR '']'' # rest"
      using r by (metis takeWhile_dropWhile_id)
    then have "last (c # cs) = last (CHR '']'' # rest)"
      by (metis last_ConsR last_appendR list.distinct(1) append_is_Nil_conv)
    with "2.prems" have rest: "rest \<noteq> []" "last rest = last (c # cs)" by (auto split: if_splits)
    then show ?thesis using "2.IH"(2)[OF _ r] True r "2.prems" by simp
  next
    case False
    then have eq: "bracket_sub (c # cs) = c # bracket_sub cs"
      by (auto split: list.splits)
    show ?thesis
    proof (cases "cs = []")
      case True
      then show ?thesis using eq by simp
    next
      case nonempty: False
      have "bracket_sub cs \<noteq> [] \<and> last (bracket_sub cs) = last cs"
      proof (cases "c = CHR ''[''")
        case c: True
        show ?thesis
        proof (cases "dropWhile is_digit cs")
          case Nil
          then show ?thesis using "2.IH"(1)[OF c Nil] nonempty "2.prems" by simp
        next
          case (Cons d rest)
          with False c have "d \<noteq> CHR '']''" by simp
          then show ?thesis using "2.IH"(3)[OF c Cons] nonempty "2.prems" by simp
        qed
      next
        case c: False
        then show ?thesis using "2.IH"(4) nonempty "2.prems" by simp
      qed
      then show ?thesis using eq nonempty by simp
    qed
  qed
qed

lemma Counter_snoc: "Counter (xs @ [x]) = counter_add x (Counter xs)"
  by (simp add: Counter_def)

lemma Counter_Nil: "Counter [] = []"
  by (simp add: Counter_def)

lemma counter_add_keys:
  "map fst (counter_add k m) = (if k \<in> set (map fst m) then map fst m else map fst m @ [k])"
  by (induction m) (auto simp: rev_image_eqI)

lemma counter_add_map_of:
  "map_of (counter_add k m) k' =
     (if k' = k then Some (case map_of m k of None \<Rightarrow> 1 | Some n \<Rightarrow> Suc n) else map_of m k')"
  by (induction m) auto

lemma Counter_keys_set: "set (map fst (Counter xs)) = set xs"
  by (induction xs rule: rev_induct) (auto simp: Counter_Nil Counter_snoc counter_add_keys)

lemma Counter_keys_distinct: "distinct (map fst (Counter xs))"
proof (induction xs rule: rev_induct)
  case Nil
  then show ?case by (simp add: Counter_Nil)
next
  case (snoc x xs)
  then show ?case by (simp add: Counter_snoc counter_add_keys)
qed

lemma Counter_map_of:
  "map_of (Counter xs) k = (if k \<in> set xs then Some (count_list xs k) else None)"
proof (induction xs rule: rev_induct)
  case Nil
  then show ?case by (simp add: Counter_Nil)
next
  case (snoc x xs)
  then show ?case by (auto simp: Counter_snoc counter_add_map_of)
qed

lemma Counter_count: "(k, c) \<in> set (Counter xs) \<Longrightarrow> c = count_list xs k \<and> k \<in> set xs"
proof -
  assume "(k, c) \<in> set (Counter xs)"
  then have "map_of (Counter xs) k = Some c"
    using Counter_keys_distinct[of xs] by simp
  then show ?thesis by (simp add: Counter_map_of split: if_splits)
qed

lemma first_index_snoc_mem: "a \<in> set xs \<Longrightarrow> first_index a (xs @ [x]) = first_index a xs"
  by (induction xs) (auto simp: first_index_def)

lemma first_index_mem_less: "a \<in> set xs \<Longrightarrow> first_index a xs < length xs"
  by (induction xs) (auto simp: first_index_def)

lemma first_index_snoc_new: "x \<notin> set xs \<Longrightarrow> first_index x (xs @ [x]) = length xs"
  by (induction xs) (auto simp: first_index_def)

lemma Counter_keys_order:
  "sorted_wrt (\<lambda>a b. first_index a xs < first_index b xs) (map fst (Counter xs))"
proof (induction xs rule: rev_induct)
  case Nil
  then show ?case by (simp add: Counter_Nil)
next
  case (snoc x xs)
  let ?ks = "map fst (Counter xs)"
  have ks: "set ?ks = set xs" by (rule Counter_keys_set)
  have old: "sorted_wrt (\<lambda>a b. first_index a (xs @ [x]) < first_index b (xs @ [x])) ?ks"
    using snoc ks by (auto intro!: sorted_wrt_mono_rel[OF _ snoc] simp: first_index_snoc_mem)
  show ?case
  proof (cases "x \<in> set xs")
    case True
    then show ?thesis using old ks by (simp add: Counter_snoc counter_add_keys)
  next
    case False
    then show ?thesis using old ks
      by (auto simp: Counter_snoc counter_add_keys sorted_wrt_append
          first_index_snoc_mem first_index_snoc_new first_index_mem_less)
  qed
qed

lemma insort_key_stable_order:
  assumes "sorted_wrt (\<lambda>a b. f a < f b \<or> (f a = f b \<and> R a b)) ys"
    and "\<forall>y \<in> set ys. R x y"
  shows "sorted_wrt (\<lambda>a b. f a < f b \<or> (f a = f b \<and> R a b)) (insort_key f x ys)"
  using assms
proof (induction ys)
  case Nil
  then show ?case by simp
next
  case (Cons y ys)
  show ?case
  proof (cases "f x \<le> f y")
    case True
    have "\<forall>z \<in> set (y # ys). f x < f z \<or> (f x = f z \<and> R x z)"
    proof
      fix z assume z: "z \<in> set (y # ys)"
      have "f y \<le> f z" using Cons.prems(1) z by auto
      with True have "f x \<le> f z" by simp
      moreover have "R x z" using Cons.prems(2) z by blast
      ultimately show "f x < f z \<or> (f x = f z \<and> R x z)" by auto
    qed
    with True Cons.prems(1) show ?thesis by simp
  next
    case False
    have "sorted_wrt (\<lambda>a b. f a < f b \<or> (f a = f b \<and> R a b)) (insort_key f x ys)"
      using Cons by simp
    moreover have "\<forall>z \<in> set (insort_key f x ys). f y < f z \<or> (f y = f z \<and> R y z)"
      using False Cons.prems(1) by (auto simp: set_insort_key)
    ultimately show ?thesis using False by simp
  qed
qed

lemma sort_key_stable_order:
  "sorted_wrt R xs \<Longrightarrow>
   sorted_wrt (\<lambda>a b. f a < f b \<or> (f a = f b \<and> R a b)) (sort_key f xs)"
proof (induction xs)
  case Nil
  then show ?case by simp
next
  case (Cons x xs)
  then have "sorted_wrt (\<lambda>a b. f a < f b \<or> (f a = f b \<and> R a b)) (sort_key f xs)"
    and "\<forall>y \<in> set (sort_key f xs). R x y"
    by auto
  then show ?case by (simp add: insort_key_stable_order)
qed

lemma most_common_set: "set (most_common kvs) = set kvs"
  by (simp add: most_common_def)

lemma most_common_keys_distinct: "distinct (map fst kvs) \<Longrightarrow> distinct (map fst (most_common kvs))"
  by (metis most_common_def distinct_map distinct_sort set_sort inj_on_cong)

lemma most_common_order:
  "sorted_wrt R kvs \<Longrightarrow>
   sorted_wrt (\<lambda>a b. snd b < snd a \<or> (snd a = snd b \<and> R a b)) (most_common kvs)"
proof -
  assume "sorted_wrt R kvs"
  then have "sorted_wrt (\<lambda>a b. - int (snd a) < - int (snd b) \<or> (- int (snd a) = - int (snd b) \<and> R a b))
     (most_common kvs)"
    unfolding most_common_def by (rule sort_key_stable_order)
  then show ?thesis by (rule sorted_wrt_mono_rel[rotated]) auto
qed

(* split / join *)

lemma split_on_not_Nil: "split_on d s \<noteq> []"
  by (induction s) (auto simp: Let_def)

lemma split_on_no_sep: "x \<in> set (split_on d s) \<Longrightarrow> d \<notin> set x"
proof (induction s arbitrary: x)
  case Nil
  then show ?case by simp
next
  case (Cons c cs)
  then show ?case
    using split_on_not_Nil[of d cs]
    by (cases "split_on d cs") (auto simp: Let_def split: if_splits)
qed

lemma split_on_no_sep_id: "d \<notin> set x \<Longrightarrow> split_on d x = [x]"
  by (induction x) (auto simp: Let_def)

lemma split_on_append_sep:
  "d \<notin> set x \<Longrightarrow> split_on d (x @ d # s) = x # split_on d s"
  by (induction x) (auto simp: Let_def)

lemma split_on_join:
  "xs \<noteq> [] \<Longrightarrow> \<forall>x \<in> set xs. d \<notin> set x \<Longrightarrow> split_on d (join [d] xs) = xs"
proof (induction "[d]" xs rule: join.induct)
  case 1
  then show ?case by simp
next
  case (2 x)
  then show ?case by (simp add: split_on_no_sep_id)
next
  case (3 x y ys)
  then show ?case by (simp add: split_on_append_sep)
qed

lemma join_split_on: "join [d] (split_on d s) = s"
proof (induction s)
  case Nil
  then show ?case by simp
next
  case (Cons c cs)
  then show ?case
    using split_on_not_Nil[of d cs]
    by (cases "split_on d cs"; cases "tl (split_on d cs)") (auto simp: Let_def)
qed

lemma parent_path_steps:
  assumes "2 \<le> length (split_on CHR ''/'' p)"
  shows "split_on CHR ''/'' (parent_path p) = butlast (split_on CHR ''/'' p)"
proof -
  let ?xs = "butlast (split_on CHR ''/'' p)"
  have "?xs \<noteq> []" using assms by (cases "split_on CHR ''/'' p" rule: rev_cases) auto
  moreover have "\<forall>x \<in> set ?xs. CHR ''/'' \<notin> set x"
    by (meson in_set_butlastD split_on_no_sep)
  ultimately show ?thesis unfolding parent_path_def by (rule split_on_join)
qed

lemma starts_with_append: "starts_with (p @ s) p"
  by (induction p) auto

lemma starts_with_in_str: "starts_with x p \<Longrightarrow> in_str p x"
  by (cases x; cases p) auto

lemma join_butlast:
  "xs \<noteq> [] \<Longrightarrow> \<exists>s. join sep xs = join sep (butlast xs) @ s"
proof (induction sep xs rule: join.induct)
  case (1 sep)
  then show ?case by simp
next
  case (2 sep x)
  then show ?case by simp
next
  case (3 sep x y ys)
  then obtain s where "join sep (y # ys) = join sep (butlast (y # ys)) @ s" by auto
  then show ?case by (cases ys) auto
qed

lemma parent_path_in_str: "in_str (parent_path x) x"
proof -
  obtain s where "join ''/'' (split_on CHR ''/'' x) = parent_path x @ s"
    unfolding parent_path_def using join_butlast[OF split_on_not_Nil] by blast
  then have "x = parent_path x @ s" by (simp add: join_split_on)
  then show ?thesis using starts_with_append starts_with_in_str by metis
qed

lemma frequency_distribution_keys:
  "set (map fst (get_xpath_frequency_distribution xs)) = set (map parent_path xs)"
  unfolding get_xpath_frequency_distribution_def
  using Counter_keys_set[of "map parent_path xs"] by (simp add: most_common_set)

lemma frequency_distribution_Nil: "get_xpath_frequency_distribution xs = [] \<longleftrightarrow> xs = []"
  using frequency_distribution_keys[of xs] by (metis map_is_Nil_conv set_empty)

lemma get_sentence_xpath_tuples_blocks:
  "get_sentence_xpath_tuples root n =
     concat (map (\<lambda>p. map (\<lambda>s. (s, getpath root p)) (mark_first (segment (full_text root p))))
                 (text_finder n root))"
  by (simp add: get_sentence_xpath_tuples_def sentence_pairs_of_mark_first)

lemma comprehension_filter: "[s. (s, x) \<leftarrow> l, Q x] = map fst (filter (\<lambda>u. Q (snd u)) l)"
  by (induction l) auto

lemma filter_block:
  "map fst (filter (\<lambda>u. Q (snd u)) (map (\<lambda>s. (s, a)) l)) = (if Q a then l else [])"
  by (induction l) auto

lemma filter_blocks:
  "[s. (s, x) \<leftarrow> concat (map (\<lambda>p. map (\<lambda>s. (s, g p)) (f p)) ps), Q x]
     = concat (map (\<lambda>p. if Q (g p) then f p else []) ps)"
  unfolding comprehension_filter
proof (induction ps)
  case Nil
  then show ?case by simp
next
  case (Cons p ps)
  then show ?case by (simp only: list.map concat.simps filter_append map_append filter_block)
qed

lemma segment_ends: "s \<in> set (segment text) \<Longrightarrow> ends_sentence s"
  by (simp add: segment_def)

lemma marked_blocks_head:
  assumes "concat (map (\<lambda>p. if Q p then mark_first (segment (h p)) else []) ps) \<noteq> []"
  shows "\<exists>s rest. concat (map (\<lambda>p. if Q p then mark_first (segment (h p)) else []) ps)
            = (paragraph_break @ s) # rest \<and> ends_sentence s"
  using assms
proof (induction ps)
  case Nil
  then show ?case by simp
next
  case (Cons p ps)
  show ?case
  proof (cases "Q p \<and> segment (h p) \<noteq> []")
    case True
    then obtain f fs where f: "segment (h p) = f # fs" by (cases "segment (h p)") auto
    then have "ends_sentence f" using segment_ends[of f "h p"] by simp
    then show ?thesis using True f by simp
  next
    case False
    then have "(if Q p then mark_first (segment (h p)) else []) = []" by auto
    then show ?thesis using Cons by simp
  qed
qed

lemma join_marked: "join sep ((m @ s) # rest) = m @ join sep (s # rest)"
  by (cases rest) simp_all

lemma join_not_Nil: "s \<noteq> [] \<Longrightarrow> join sep (s # rest) \<noteq> []"
  by (cases rest) simp_all

lemma extract_text_Inl:
  "extract_text root m = Inl IndexError \<longleftrightarrow>
     get_sentence_xpath_tuples root (build_text_finder m) = []"
proof -
  let ?pairs = "get_sentence_xpath_tuples root (build_text_finder m)"
  show ?thesis
  proof (cases "get_xpath_frequency_distribution (map snd ?pairs)")
    case Nil
    then have "?pairs = []" using frequency_distribution_Nil[of "map snd ?pairs"] by simp
    with Nil show ?thesis by (simp add: extract_text_def)
  next
    case (Cons a l)
    then have "?pairs \<noteq> []" using frequency_distribution_Nil[of "map snd ?pairs"] by auto
    with Cons show ?thesis by (simp add: extract_text_def Let_def)
  qed
qed

lemma drop_marker: "drop 2 (join sep ((paragraph_break @ s) # rest)) = join sep (s # rest)"
  by (simp only: join_marked) (simp add: paragraph_break_def)

lemma extract_text_Inr:
  assumes "get_sentence_xpath_tuples root (build_text_finder m) \<noteq> []"
  shows "extract_text root m = Inr (drop 2 (join '' '' (retained root m)))"
proof -
  let ?pairs = "get_sentence_xpath_tuples root (build_text_finder m)"
  obtain a l where "get_xpath_frequency_distribution (map snd ?pairs) = a # l"
    using assms frequency_distribution_Nil[of "map snd ?pairs"]
    by (cases "get_xpath_frequency_distribution (map snd ?pairs)") auto
  then show ?thesis
    by (simp add: extract_text_def Let_def retained_def max_path_def)
qed

lemma retained_not_Nil:
  assumes "get_sentence_xpath_tuples root (build_text_finder m) \<noteq> []"
  shows "retained root m \<noteq> []"
proof -
  let ?pairs = "get_sentence_xpath_tuples root (build_text_finder m)"
  let ?r = "get_xpath_frequency_distribution (map snd ?pairs)"
  have "?r \<noteq> []" using assms by (simp add: frequency_distribution_Nil)
  then have "max_path root m \<in> set (map fst ?r)"
    unfolding max_path_def by (cases ?r) auto
  then have "max_path root m \<in> set (map parent_path (map snd ?pairs))"
    by (simp only: frequency_distribution_keys)
  then obtain s x where sx: "(s, x) \<in> set ?pairs" "max_path root m = parent_path x"
    by auto
  then have "in_str (max_path root m) x" by (simp add: parent_path_in_str)
  with sx(1) have "s \<in> set (retained root m)"
    unfolding retained_def by auto
  then show ?thesis by auto
qed

lemma retained_head:
  assumes "get_sentence_xpath_tuples root (build_text_finder m) \<noteq> []"
  shows "\<exists>s rest. retained root m = (paragraph_break @ s) # rest \<and> ends_sentence s"
proof -
  let ?Q = "\<lambda>p. in_str (max_path root m) (getpath root p)"
  have eq: "retained root m =
      concat (map (\<lambda>p. if ?Q p then mark_first (segment (full_text root p)) else [])
                  (text_finder (build_text_finder m) root))"
    unfolding retained_def get_sentence_xpath_tuples_blocks
    by (rule filter_blocks[where g="getpath root" and Q="in_str (max_path root m)"])
  show ?thesis
    using marked_blocks_head[where Q="?Q" and h="full_text root"] retained_not_Nil[OF assms]
    unfolding eq by blast
qed

lemma ends_sentence_not_Nil: "ends_sentence s \<Longrightarrow> s \<noteq> []"
  by (simp add: ends_sentence_iff)

lemma positions_sorted:
  "sorted_wrt (<) (positions n)"
  "sorted_wrt (<) (positions_from i cs) \<and> (\<forall>p \<in> set (positions_from i cs). \<exists>j q. p = j # q \<and> i \<le> j)"
proof (induction n and i cs rule: positions_positions_from.induct)
  case (1 t)
  then show ?case by simp
next
  case (2 t cs)
  then show ?case by auto
next
  case (3 i)
  then show ?case by simp
next
  case (4 i c cs)
  have a: "sorted_wrt (<) (map ((#) i) (positions c))"
    using 4(1) by (simp add: sorted_wrt_map)
  have b: "\<forall>x \<in> set (map ((#) i) (positions c)). \<forall>y \<in> set (positions_from (Suc i) cs). x < y"
    using 4(2) by fastforce
  have c: "\<forall>p \<in> set (positions_from (Suc i) cs). \<exists>j q. p = j # q \<and> i \<le> j"
    using 4(2) by (meson Suc_leD)
  show ?case using a b c 4(2) by (auto simp: sorted_wrt_append)
qed

lemma positions_mem:
  "p \<in> set (positions n) \<longleftrightarrow> node_at n p \<noteq> None"
  "p \<in> set (positions_from i cs) \<longleftrightarrow>
     (\<exists>j q. p = (i + j) # q \<and> j < length cs \<and> node_at (cs ! j) q \<noteq> None)"
proof (induction n and i cs arbitrary: p and p rule: positions_positions_from.induct)
  case (1 t)
  then show ?case by (cases p) auto
next
  case (2 t cs)
  show ?case
  proof (cases p)
    case Nil
    then show ?thesis by simp
  next
    case (Cons k q)
    then show ?thesis using 2[of p] by auto
  qed
next
  case (3 i)
  then show ?case by simp
next
  case (4 i c cs)
  have "p \<in> set (positions_from i (c # cs)) \<longleftrightarrow>
      (\<exists>q. p = i # q \<and> node_at c q \<noteq> None) \<or>
      (\<exists>j q. p = (Suc i + j) # q \<and> j < length cs \<and> node_at (cs ! j) q \<noteq> None)"
    using 4(1) 4(2)[of p] by auto
  also have "\<dots> \<longleftrightarrow> (\<exists>j q. p = (i + j) # q \<and> j < length (c # cs) \<and> node_at ((c # cs) ! j) q \<noteq> None)"
    (is "?L \<longleftrightarrow> ?R")
  proof
    assume ?L
    then show ?R
    proof
      assume "\<exists>q. p = i # q \<and> node_at c q \<noteq> None"
      then obtain q where "p = (i + 0) # q \<and> 0 < length (c # cs) \<and> node_at ((c # cs) ! 0) q \<noteq> None"
        by auto
      then show ?R by blast
    next
      assume "\<exists>j q. p = (Suc i + j) # q \<and> j < length cs \<and> node_at (cs ! j) q \<noteq> None"
      then obtain j q where "p = (i + Suc j) # q \<and> Suc j < length (c # cs) \<and> node_at ((c # cs) ! Suc j) q \<noteq> None"
        by auto
      then show ?R by blast
    qed
  next
    assume ?R
    then obtain j q where jq: "p = (i + j) # q" "j < length (c # cs)" "node_at ((c # cs) ! j) q \<noteq> None"
      by blast
    show ?L
    proof (cases j)
      case 0
      with jq show ?thesis by auto
    next
      case (Suc k)
      with jq have "p = (Suc i + k) # q \<and> k < length cs \<and> node_at (cs ! k) q \<noteq> None" by auto
      then show ?thesis by blast
    qed
  qed
  finally show ?case .
qed

lemma node_at_append:
  "node_at n (p @ q) = (case node_at n p of None \<Rightarrow> None | Some m \<Rightarrow> node_at m q)"
proof (induction n p rule: node_at.induct)
  case (1 n)
  then show ?case by simp
next
  case (2 t i p)
  then show ?case by simp
next
  case (3 t cs i p)
  then show ?case by simp
qed

lemma node_set_filter:
  assumes "set S \<subseteq> set (positions root)"
  shows "node_set S = filter (\<lambda>p. p \<in> set S) (positions root)"
proof -
  have "sorted (positions root) \<and> distinct (positions root)"
    using positions_sorted(1)[of root] by (simp add: strict_sorted_iff)
  then have "sorted (filter (\<lambda>p. p \<in> set S) (positions root))"
    and "distinct (filter (\<lambda>p. p \<in> set S) (positions root))"
    by (simp_all add: sorted_wrt_filter)
  moreover have "set (filter (\<lambda>p. p \<in> set S) (positions root)) = set (sort (remdups S))"
    using assms by auto
  moreover have "sorted (sort (remdups S))" and "distinct (sort (remdups S))"
    by simp_all
  ultimately show ?thesis
    unfolding node_set_def by (metis sorted_distinct_set_unique)
qed

lemma node_set_idem: "node_set (node_set S) = node_set S"
proof -
  have "remdups (sort (remdups S)) = sort (remdups S)"
    by (simp add: distinct_remdups_id)
  then show ?thesis by (simp add: node_set_def sorted_sort_id)
qed

lemma set_node_set: "set (node_set S) = set S"
  by (simp add: node_set_def)

lemma set_xpath_step: "set (xpath_step axis ps) = (\<Union>p \<in> set ps. set (axis p))"
  by (simp add: xpath_step_def set_node_set)

lemma tag_at_Some: "tag_at root p = Some t \<longleftrightarrow> (\<exists>cs. node_at root p = Some (Element t cs))"
  by (auto simp: tag_at_def split: option.splits node.splits)

lemma mem_descendant_elements:
  "k \<in> set (descendant_elements root b) \<longleftrightarrow>
     (\<exists>nb q. node_at root b = Some nb \<and> k = b @ q \<and> q \<noteq> [] \<and> q \<in> set (positions nb)
             \<and> tag_at nb q \<noteq> None)"
proof (cases "node_at root b")
  case None
  then show ?thesis by (simp add: descendant_elements_def)
next
  case (Some nb)
  then show ?thesis by (auto simp: descendant_elements_def)
qed

lemma mem_text_children:
  "t \<in> set (text_children root k) \<longleftrightarrow>
     (\<exists>tg cs i. node_at root k = Some (Element tg cs) \<and> i < length cs \<and> \<not> is_element (cs ! i)
               \<and> t = k @ [i])"
proof (cases "node_at root k")
  case None
  then show ?thesis by (simp add: text_children_def)
next
  case (Some e)
  then show ?thesis by (cases e) (auto simp: text_children_def)
qed

lemma mem_elements:
  "k \<in> set (xpath_step (descendant_elements root) (all_bodies root)) \<longleftrightarrow>
     tag_at root k \<noteq> None \<and> inside_body root k"
  (is "?L \<longleftrightarrow> ?R")
proof
  assume ?L
  then obtain b where b: "b \<in> set (positions root)" "tag_at root b = Some ''body''"
      "k \<in> set (descendant_elements root b)"
    by (auto simp: set_xpath_step all_bodies_def set_node_set)
  then obtain nb where nb: "node_at root b = Some nb"
    by (auto simp: tag_at_Some)
  with b(3) obtain q where q: "k = b @ q" "q \<noteq> []" "tag_at nb q \<noteq> None"
    by (auto simp: mem_descendant_elements)
  have "tag_at root k \<noteq> None"
    using q nb by (simp add: tag_at_def node_at_append)
  moreover have "length b < length k \<and> take (length b) k = b" using q by simp
  then have "inside_body root k"
    unfolding inside_body_def using b(2) by force
  ultimately show ?R by simp
next
  assume r: ?R
  then obtain j where j: "j < length k" "tag_at root (take j k) = Some ''body''"
    by (auto simp: inside_body_def)
  let ?b = "take j k" and ?q = "drop j k"
  obtain nb where nb: "node_at root ?b = Some nb" using j(2) by (auto simp: tag_at_Some)
  then have "?b \<in> set (positions root)" by (simp add: positions_mem)
  then have b: "?b \<in> set (all_bodies root)" using j(2) by (simp add: all_bodies_def set_node_set)
  have k: "k = ?b @ ?q" by simp
  have "node_at nb ?q = node_at root k"
    using node_at_append[of root ?b ?q] nb by simp
  then have tq: "tag_at nb ?q \<noteq> None"
    using r by (simp add: tag_at_def)
  then have "node_at nb ?q \<noteq> None" by (auto simp: tag_at_def split: option.splits)
  then have "?q \<in> set (positions nb)" by (simp add: positions_mem)
  moreover have "?q \<noteq> []" using j(1) by simp
  ultimately have "k \<in> set (descendant_elements root ?b)"
    unfolding mem_descendant_elements using nb tq k by blast
  then show ?L using b by (auto simp: set_xpath_step)
qed

lemma mem_text_finder: "p \<in> set (text_finder n root) \<longleftrightarrow> candidate n root p"
  (is "?L \<longleftrightarrow> ?R")
proof
  let ?kept = "filter (not_excluded root) (xpath_step (descendant_elements root) (all_bodies root))"
  assume ?L
  then obtain t where t: "t \<in> set (xpath_step (text_children root) ?kept)" "long_text n root t"
      "p \<in> set (parent_axis t)"
    by (auto simp: text_finder_def Let_def set_xpath_step)
  from t(1) obtain k where k: "k \<in> set ?kept" "t \<in> set (text_children root k)"
    by (auto simp: set_xpath_step)
  from k(2) obtain tg cs i where e: "node_at root k = Some (Element tg cs)" "i < length cs"
      "\<not> is_element (cs ! i)" "t = k @ [i]"
    unfolding mem_text_children by blast
  have pk: "p = k" using t(3) e(4) by (simp add: parent_axis_def)
  have "node_at root t = Some (cs ! i)" using e by (simp add: node_at_append)
  then have "n < int (length (normalize_space (text_content (cs ! i))))"
    using t(2) e(3) by (cases "cs ! i") (auto simp: long_text_def text_at_def)
  then have "has_long_text_node n (Element tg cs)"
    unfolding has_long_text_node_def using e(2,3) by (metis children.simps(2) nth_mem)
  moreover have "tg \<notin> set excluded_tags \<and> inside_body root k"
    using k(1) e(1) by (auto simp: mem_elements not_excluded_def tag_at_def)
  ultimately show ?R using e(1) pk by (simp add: candidate_def)
next
  let ?kept = "filter (not_excluded root) (xpath_step (descendant_elements root) (all_bodies root))"
  assume ?R
  then obtain tg cs where e: "node_at root p = Some (Element tg cs)" "tg \<notin> set excluded_tags"
      "inside_body root p" "has_long_text_node n (Element tg cs)"
    by (auto simp: candidate_def split: option.splits node.splits)
  then have kept: "p \<in> set ?kept"
    by (simp add: mem_elements not_excluded_def tag_at_def)
  from e(4) obtain i where i: "i < length cs" "\<not> is_element (cs ! i)"
      "n < int (length (normalize_space (text_content (cs ! i))))"
    by (auto simp: has_long_text_node_def in_set_conv_nth)
  have "p @ [i] \<in> set (text_children root p)"
    unfolding mem_text_children using e(1) i by blast
  then have 1: "p @ [i] \<in> set (xpath_step (text_children root) ?kept)"
    using kept unfolding set_xpath_step by blast
  have "node_at root (p @ [i]) = Some (cs ! i)" using e(1) i(1) by (simp add: node_at_append)
  then have 2: "long_text n root (p @ [i])"
    using i by (cases "cs ! i") (auto simp: long_text_def text_at_def)
  have 3: "p \<in> set (parent_axis (p @ [i]))" by (simp add: parent_axis_def)
  show ?L
    unfolding text_finder_def Let_def set_xpath_step using 1 2 3
    by (metis (no_types, lifting) UN_I mem_Collect_eq set_filter set_xpath_step)
qed


lemma text_finder_filter: "text_finder n root = filter (candidate n root) (positions root)"
proof -
  have "set (text_finder n root) \<subseteq> set (positions root)"
    by (auto simp: mem_text_finder positions_mem candidate_def split: option.splits)
  moreover have "text_finder n root = node_set (text_finder n root)"
    by (simp add: text_finder_def Let_def xpath_step_def node_set_idem)
  ultimately have "text_finder n root = filter (\<lambda>p. p \<in> set (text_finder n root)) (positions root)"
    using node_set_filter by metis
  then show ?thesis by (simp add: mem_text_finder)
qed

lemma text_finder_distinct: "distinct (text_finder n root)"
  using positions_sorted(1)[of root] by (simp add: text_finder_filter strict_sorted_iff)

lemma frequency_distribution_counts:
  "(q, c) \<in> set (get_xpath_frequency_distribution xs) \<Longrightarrow> c = count_list (map parent_path xs) q"
  unfolding get_xpath_frequency_distribution_def most_common_set using Counter_count by fastforce

lemma mark_first_cases:
  "t \<in> set (mark_first fs) \<Longrightarrow> \<exists>s \<in> set fs. t = s \<or> t = paragraph_break @ s"
  by (cases fs) auto

lemma count_list_distinct: "distinct xs \<Longrightarrow> count_list xs x = (if x \<in> set xs then 1 else 0)"
  by (induction xs) auto

lemma count_list_filter: "count_list (filter P xs) x = (if P x then count_list xs x else 0)"
  by (induction xs) auto

lemma candidate_position: "candidate n root p \<Longrightarrow> p \<in> set (positions root)"
  by (auto simp: positions_mem candidate_def split: option.splits)

lemma text_finder_count:
  "count_list (text_finder n root) p = (if candidate n root p then 1 else 0)"
proof -
  have "distinct (positions root)"
    using positions_sorted(1)[of root] by (simp add: strict_sorted_iff)
  then show ?thesis
    using candidate_position[of n root p]
    by (simp add: text_finder_filter count_list_filter count_list_distinct)
qed

lemma is_marker_iff:
  "is_marker m \<longleftrightarrow> (\<exists>d. m = CHR ''['' # d @ [CHR '']''] \<and> (\<forall>x \<in> set d. is_digit x))"
proof (cases m)
  case Nil
  then show ?thesis by (simp add: is_marker_def)
next
  case (Cons c r)
  show ?thesis
  proof
    assume "is_marker m"
    then have r: "c = CHR ''[''" "r \<noteq> []" "last r = CHR '']''" "\<forall>x \<in> set (butlast r). is_digit x"
      using Cons by (simp_all add: is_marker_def list_all_iff)
    then have "m = CHR ''['' # butlast r @ [CHR '']'']"
      using Cons by (metis append_butlast_last_id)
    with r(4) show "\<exists>d. m = CHR ''['' # d @ [CHR '']''] \<and> (\<forall>x \<in> set d. is_digit x)"
      by blast
  next
    assume "\<exists>d. m = CHR ''['' # d @ [CHR '']''] \<and> (\<forall>x \<in> set d. is_digit x)"
    then show "is_marker m" by (auto simp: is_marker_def list_all_iff)
  qed
qed

lemma digit_not_bracket: "is_digit x \<Longrightarrow> x \<noteq> CHR ''['' \<and> x \<noteq> CHR '']''"
  by (auto simp: is_digit_def)

lemma in_marker_iff:
  "in_marker pre rest \<longleftrightarrow>
     (\<exists>a b. suffix a pre \<and> prefix b rest \<and> b \<noteq> [] \<and> is_marker (a @ b))"
  unfolding in_marker_def list_ex_iff Bex_def in_set_prefixes in_set_suffixes by blast

lemma no_marker_across_iff:
  "no_marker_across pre rest \<longleftrightarrow>
     (\<forall>a b. suffix a pre \<and> a \<noteq> [] \<and> prefix b rest \<and> b \<noteq> [] \<longrightarrow> \<not> is_marker (a @ b))"
  unfolding no_marker_across_def list_ex_iff Bex_def in_set_prefixes in_set_suffixes by blast

lemma positionwise_skip:
  "(\<forall>a b. xs = a @ b \<and> b \<noteq> [] \<longrightarrow> f (pre @ a) (b @ ys) = []) \<Longrightarrow>
   positionwise f pre (xs @ ys) = positionwise f (pre @ xs) ys"
proof (induction xs arbitrary: pre)
  case Nil
  then show ?case by simp
next
  case (Cons x xs)
  have "f pre ((x # xs) @ ys) = []"
    using Cons.prems by (metis append_Nil append_Nil2 list.distinct(1))
  moreover have "\<forall>a b. xs = a @ b \<and> b \<noteq> [] \<longrightarrow> f ((pre @ [x]) @ a) (b @ ys) = []"
  proof (intro allI impI)
    fix a b assume "xs = a @ b \<and> b \<noteq> []"
    then have "x # xs = (x # a) @ b \<and> b \<noteq> []" by simp
    then have "f (pre @ (x # a)) (b @ ys) = []" using Cons.prems by blast
    then show "f ((pre @ [x]) @ a) (b @ ys) = []" by simp
  qed
  ultimately show ?case using Cons.IH[of "pre @ [x]"] by simp
qed

lemma marker_last_not_close:
  assumes "is_marker (a @ b)" and "a \<noteq> []" and "b \<noteq> []"
  shows "last a \<noteq> CHR '']''"
proof -
  obtain d where d: "a @ b = CHR ''['' # d @ [CHR '']'']" "\<forall>x \<in> set d. is_digit x"
    using assms(1) is_marker_iff by blast
  obtain a0 x where a: "a = a0 @ [x]" using assms(2) by (cases a rule: rev_cases) auto
  obtain b0 y where b: "b = b0 @ [y]" using assms(3) by (cases b rule: rev_cases) auto
  have "(a0 @ x # b0) @ [y] = (CHR ''['' # d) @ [CHR '']'']"
    using d(1) a b by simp
  then have e: "a0 @ x # b0 = CHR ''['' # d" by (simp only: append1_eq_conv)
  show ?thesis
  proof (cases a0)
    case Nil
    with e have "x = CHR ''[''" by simp
    with a show ?thesis by simp
  next
    case (Cons z a1)
    with e have "x \<in> set d" by auto
    then have "x \<noteq> CHR '']''" using d(2) digit_not_bracket by blast
    with a show ?thesis by simp
  qed
qed

lemma marker_at_head:
  assumes "is_marker b" and "prefix b (c # cs)"
  shows "c = CHR ''['' \<and> (\<exists>v. dropWhile is_digit cs = CHR '']'' # v)"
proof -
  obtain d where d: "b = CHR ''['' # d @ [CHR '']'']" "\<forall>x \<in> set d. is_digit x"
    using assms(1) is_marker_iff by blast
  obtain z where "c # cs = b @ z" using assms(2) by (auto simp: prefix_def)
  then have c: "c = CHR ''[''" "cs = d @ CHR '']'' # z" using d(1) by simp_all
  have "\<not> is_digit CHR '']''" by (simp add: is_digit_def)
  then have "dropWhile is_digit cs = CHR '']'' # z"
    using c(2) d(2) by (simp add: dropWhile_append2)
  with c(1) show ?thesis by blast
qed

lemma head_marker:
  assumes "dropWhile is_digit cs = CHR '']'' # v"
  shows "is_marker (CHR ''['' # takeWhile is_digit cs @ [CHR '']''])
       \<and> CHR ''['' # cs = (CHR ''['' # takeWhile is_digit cs @ [CHR '']'']) @ v"
proof -
  have "cs = takeWhile is_digit cs @ CHR '']'' # v"
    using assms by (metis takeWhile_dropWhile_id)
  moreover have "\<forall>x \<in> set (takeWhile is_digit cs). is_digit x"
    by (meson set_takeWhileD)
  ultimately show ?thesis by (auto simp: is_marker_iff)
qed

lemma bracket_sub_positionwise:
  "no_marker_across pre rest \<Longrightarrow>
   bracket_sub rest = positionwise (\<lambda>pre rest. if in_marker pre rest then [] else [hd rest]) pre rest"
proof (induction "length rest" arbitrary: pre rest rule: less_induct)
  case less
  let ?f = "\<lambda>pre rest. if in_marker pre rest then [] else [hd rest]"
  show ?case
  proof (cases rest)
    case Nil
    then show ?thesis by simp
  next
    case (Cons c cs)
    show ?thesis
    proof (cases "c = CHR ''['' \<and> (\<exists>v. dropWhile is_digit cs = CHR '']'' # v)")
      case True
      then obtain v where v: "dropWhile is_digit cs = CHR '']'' # v" by blast
      let ?m = "CHR ''['' # takeWhile is_digit cs @ [CHR '']'']"
      have m: "is_marker ?m" and r: "rest = ?m @ v"
        using head_marker[OF v] True Cons by simp_all
      have inside: "\<forall>a b. ?m = a @ b \<and> b \<noteq> [] \<longrightarrow> ?f (pre @ a) (b @ v) = []"
      proof (intro allI impI)
        fix a b assume ab: "?m = a @ b \<and> b \<noteq> []"
        then have "suffix a (pre @ a) \<and> prefix b (b @ v) \<and> b \<noteq> [] \<and> is_marker (a @ b)"
          using m by (simp add: suffix_def)
        then have "in_marker (pre @ a) (b @ v)" unfolding in_marker_iff by blast
        then show "?f (pre @ a) (b @ v) = []" by simp
      qed
      have across: "no_marker_across (pre @ ?m) v"
        unfolding no_marker_across_iff
      proof (intro allI impI)
        fix a b assume ab: "suffix a (pre @ ?m) \<and> a \<noteq> [] \<and> prefix b v \<and> b \<noteq> []"
        then have "last a = last (pre @ ?m)"
          by (metis suffix_def last_appendR)
        then have "last a = CHR '']''" by simp
        then show "\<not> is_marker (a @ b)" using ab marker_last_not_close by blast
      qed
      have "length v < length rest" using r by simp
      then have "bracket_sub v = positionwise ?f (pre @ ?m) v"
        using less.hyps across by blast
      moreover have "positionwise ?f pre (?m @ v) = positionwise ?f (pre @ ?m) v"
        using inside by (rule positionwise_skip)
      moreover have "bracket_sub rest = bracket_sub v"
        using True Cons v by simp
      ultimately show ?thesis using r by simp
    next
      case False
      then have eq: "bracket_sub rest = c # bracket_sub cs"
        using Cons by (auto split: list.splits)
      have nohead: "\<not> is_marker b" if "prefix b (c # cs)" for b
        using that marker_at_head False by blast
      have "\<not> in_marker pre rest"
        unfolding in_marker_iff
      proof (intro notI, elim exE conjE)
        fix a b assume ab: "suffix a pre" "prefix b rest" "b \<noteq> []" "is_marker (a @ b)"
        show False
        proof (cases "a = []")
          case True
          then show ?thesis using ab nohead Cons by simp
        next
          case False
          then show ?thesis using ab less.prems unfolding no_marker_across_iff by blast
        qed
      qed
      then have nin: "\<not> in_marker pre (c # cs)" using Cons by simp
      have across: "no_marker_across (pre @ [c]) cs"
        unfolding no_marker_across_iff
      proof (intro allI impI)
        fix a b assume ab: "suffix a (pre @ [c]) \<and> a \<noteq> [] \<and> prefix b cs \<and> b \<noteq> []"
        then obtain a' where a': "a = a' @ [c]" "suffix a' pre"
          by (metis suffix_snoc append_Nil)
        have pb: "prefix (c # b) rest" using ab Cons by simp
        show "\<not> is_marker (a @ b)"
        proof (cases "a' = []")
          case True
          then show ?thesis using a' nohead pb Cons by simp
        next
          case False
          then have "\<not> is_marker (a' @ (c # b))"
            using a'(2) pb less.prems unfolding no_marker_across_iff by blast
          then show ?thesis using a'(1) by simp
        qed
      qed
      have "length cs < length rest" using Cons by simp
      then have ih: "bracket_sub cs = positionwise ?f (pre @ [c]) cs"
        using less.hyps across by blast
      have "bracket_sub rest = c # bracket_sub cs" by (rule eq)
      also have "\<dots> = c # positionwise ?f (pre @ [c]) cs" by (simp only: ih)
      also have "\<dots> = positionwise ?f pre (c # cs)" using nin by simp
      also have "\<dots> = positionwise ?f pre rest" by (simp only: Cons)
      finally show ?thesis .
    qed
  qed
qed

lemma bracket_sub_without_markers: "bracket_sub text = without_markers text"
  unfolding without_markers_def
  by (rule bracket_sub_positionwise) (simp add: no_marker_across_def)

lemma ends_with_suffix: "ends_with s a \<longleftrightarrow> suffix a s"
proof
  assume "ends_with s a"
  then have "s = take (length s - length a) s @ a"
    by (metis ends_with_def append_take_drop_id)
  then show "suffix a s" by (metis suffix_def)
next
  assume "suffix a s"
  then show "ends_with s a" by (auto simp: suffix_def ends_with_def)
qed

lemma abbreviation_words_lower: "map (map lower) abbreviation_words = abbreviations"
  by (simp add: abbreviation_words_def abbreviations_def lower_def)

lemma lookbehind_boundary: "lookbehind s \<longleftrightarrow> sentence_boundary s"
proof -
  have a: "(\<exists>a \<in> set abbreviations. ends_with (map lower s) a)
     \<longleftrightarrow> list_ex (\<lambda>a. suffix (map lower a) (map lower s)) abbreviation_words"
    unfolding abbreviation_words_lower[symmetric] by (auto simp: list_ex_iff ends_with_suffix)
  have b: "(case rev s of
        [] \<Rightarrow> False
      | p # ps \<Rightarrow> p \<in> set ''.!?'' \<or>
                 (p \<in> set [CHR 0x27, CHR 0x22] \<and>
                  (case ps of [] \<Rightarrow> False | q # _ \<Rightarrow> q \<in> set ''.!?'')))
     \<longleftrightarrow> (ends_in s ''.!?'' \<or> (ends_in s [CHR 0x27, CHR 0x22] \<and> ends_in (butlast s) ''.!?''))"
  proof (cases s rule: rev_cases)
    case Nil
    then show ?thesis by (simp add: ends_in_def)
  next
    case (snoc ys y)
    then have bl: "butlast s = ys" and rv: "rev s = y # rev ys"
      and es: "\<And>X. ends_in s X \<longleftrightarrow> y \<in> set X"
      by (simp_all add: ends_in_def)
    have h: "(case rev ys of [] \<Rightarrow> False | q # _ \<Rightarrow> q \<in> set ''.!?'') \<longleftrightarrow> ends_in ys ''.!?''"
      by (cases ys rule: rev_cases) (simp_all add: ends_in_def)
    show ?thesis unfolding rv bl es list.case h ..
  qed
  show ?thesis unfolding lookbehind_def sentence_boundary_def a b ..
qed

lemma strip_trailing_space_id:
  "s = [] \<or> \<not> is_space (last s) \<Longrightarrow> strip_trailing_space s = s"
  by (cases s rule: rev_cases) (auto simp: strip_trailing_space_def)

lemma strip_trailing_space_append:
  "\<forall>x \<in> set w. is_space x \<Longrightarrow> strip_trailing_space (s @ w) = strip_trailing_space s"
proof -
  assume w: "\<forall>x \<in> set w. is_space x"
  have "dropWhile is_space (rev w @ rev s) = dropWhile is_space (rev s)"
    by (rule dropWhile_append2) (use w in auto)
  then show ?thesis by (simp add: strip_trailing_space_def)
qed

lemma split_from_positionwise:
  "not_in_gap seen rest \<Longrightarrow>
   join '' '' (split_from seen piece rest) = piece @ positionwise gap_collapsed seen rest"
proof (induction seen piece rest rule: split_from.induct)
  case (1 seen piece)
  then show ?case by simp
next
  case (2 seen piece c cs)
  show ?case
  proof (cases "is_space c \<and> lookbehind seen")
    case True
    let ?ws = "takeWhile is_space cs" and ?r = "dropWhile is_space cs"
    let ?R = "split_from (seen @ c # ?ws) [] ?r"
    have lb: "seen \<noteq> [] \<and> \<not> is_space (last seen)"
      using True lookbehind_last by blast
    then have strip: "strip_trailing_space seen = seen"
      by (simp add: strip_trailing_space_id)
    have bd: "sentence_boundary seen" using True lookbehind_boundary by blast
    have ws: "\<forall>x \<in> set ?ws. is_space x" by (meson set_takeWhileD)
    have inv': "not_in_gap (seen @ c # ?ws) ?r"
      unfolding not_in_gap_def by (metis hd_dropWhile)
    have ih: "join '' '' ?R = positionwise gap_collapsed (seen @ c # ?ws) ?r"
      using "2.IH"(1)[OF True inv'] by simp
    have first: "gap_collapsed seen (c # cs) = '' ''"
      using True lb bd strip by (simp add: gap_collapsed_def sentence_gap_def)
    have others: "\<forall>a b. ?ws = a @ b \<and> b \<noteq> [] \<longrightarrow> gap_collapsed ((seen @ [c]) @ a) (b @ ?r) = []"
    proof (intro allI impI)
      fix a b assume ab: "?ws = a @ b \<and> b \<noteq> []"
      then have sp: "(\<forall>x \<in> set (c # a). is_space x) \<and> is_space (hd b)"
        using ws True by (metis Un_iff hd_in_set set_ConsD set_append)
      then have "strip_trailing_space (seen @ (c # a)) = seen"
        using strip strip_trailing_space_append by metis
      moreover have "last (c # a) \<in> set (c # a)" by (rule last_in_set) simp
      then have "is_space (last (c # a))" using sp by blast
      ultimately show "gap_collapsed ((seen @ [c]) @ a) (b @ ?r) = []"
        using ab sp bd by (simp add: gap_collapsed_def sentence_gap_def)
    qed
    have "positionwise gap_collapsed (seen @ [c]) (?ws @ ?r)
        = positionwise gap_collapsed ((seen @ [c]) @ ?ws) ?r"
      using others by (rule positionwise_skip)
    then have "positionwise gap_collapsed seen (c # cs)
        = '' '' @ positionwise gap_collapsed (seen @ c # ?ws) ?r"
      using first by simp
    then show ?thesis
      using ih by (simp add: split_from_match[OF True] join_Cons[OF split_from_not_Nil]
          del: split_from.simps(2))
  next
    case False
    have nb: "\<not> sentence_boundary (strip_trailing_space seen)" if sp: "is_space c"
    proof (cases "seen \<noteq> [] \<and> is_space (last seen)")
      case True
      then show ?thesis using "2.prems" sp by (auto simp: not_in_gap_def)
    next
      case nospace: False
      then have "strip_trailing_space seen = seen" by (auto simp: strip_trailing_space_id)
      then show ?thesis using False sp lookbehind_boundary by simp
    qed
    then have here: "gap_collapsed seen (c # cs) = [c]"
      by (auto simp: gap_collapsed_def sentence_gap_def)
    have inv': "not_in_gap (seen @ [c]) cs"
    proof (cases "is_space c")
      case True
      then have "strip_trailing_space (seen @ [c]) = strip_trailing_space seen"
        using strip_trailing_space_append[of "[c]" seen] by simp
      then show ?thesis using nb[OF True] by (simp add: not_in_gap_def)
    next
      case False
      then show ?thesis by (simp add: not_in_gap_def)
    qed
    show ?thesis
      using "2.IH"(2)[OF False inv'] here
      by (simp add: split_from_step[OF False] del: split_from.simps(2))
  qed
qed

lemma join_split_collapse_gaps: "join '' '' (sentence_token_split t) = collapse_gaps t"
  unfolding sentence_token_split_def collapse_gaps_def
  using split_from_positionwise[of "[]" t "[]"] by (simp add: not_in_gap_def)

lemma segment_keeps_all:
  assumes "text \<noteq> []" and "last text = CHR ''.''"
  shows "segment text = sentence_token_split (bracket_sub text)"
proof -
  let ?t = "bracket_sub text"
  let ?ps = "sentence_token_split ?t"
  have t: "?t \<noteq> [] \<and> last ?t = CHR ''.''"
    using bracket_sub_last[of "text"] assms by simp
  then have "\<not> is_space (last ?t)" by (simp add: is_space_def)
  with t have lastp: "last ?ps \<noteq> [] \<and> last (last ?ps) = CHR ''.''"
    unfolding sentence_token_split_def
    using split_from_last_piece[of "bracket_sub text" "[]" "[]"] by simp
  then have "ends_sentence (last ?ps)"
    by (simp add: ends_sentence_iff sentence_ending_def)
  moreover have "?ps = butlast ?ps @ [last ?ps]"
    using sentence_token_split_not_Nil by simp
  ultimately have "\<forall>x \<in> set ?ps. ends_sentence x"
    using sentence_token_split_butlast[of _ "bracket_sub text"]
    by (metis Un_iff empty_iff empty_set set_ConsD set_append)
  then show ?thesis by (simp add: segment_def)
qed

lemma extract_text_not_EmptyExtractionError: "extract_text root m \<noteq> Inl EmptyExtractionError"
  by (simp add: extract_text_def Let_def split: list.splits)

section \<open>The claims\<close>

subsection \<open>Assembly of the article\<close>

text \<open>
  C1.  After the top-ranked parent address \<open>P\<close> is chosen, a unit is to be kept exactly
  when its address is \<open>P\<close> or descends from \<open>P\<close>, descent being the prefix relation on
  the steps of the address, and the kept texts are joined in order with one blank.  The
  code tests \<^verbatim>\<open>max_path[0] in x\<close>, containment of strings.  In \<open>doc_sibling\<close> the top
  parent is \<^verbatim>\<open>/html/body/p\<close>; the address \<^verbatim>\<open>/html/body/pre\<close> of its sibling does not
  descend from it, yet contains it as a string, and the text of the sibling is part of the
  article.
\<close>

theorem extract_text_keeps_sibling:
  "max_path doc_sibling None = ''/html/body/p''
   \<and> getpath doc_sibling [0, 1] = ''/html/body/pre''
   \<and> \<not> descends ''/html/body/p'' ''/html/body/pre''
   \<and> in_str ''/html/body/p'' ''/html/body/pre''
   \<and> retained doc_sibling None =
        [paragraph_break @ ''First sentence of the article.'',
         paragraph_break @ ''Second sentence of the article.'',
         paragraph_break @ ''Third sentence of the article.'',
         paragraph_break @ ''Unrelated text in a sibling block.'']
   \<and> extract_text doc_sibling None =
        Inr (''First sentence of the article. '' @ paragraph_break @
             ''Second sentence of the article. '' @ paragraph_break @
             ''Third sentence of the article. '' @ paragraph_break @
             ''Unrelated text in a sibling block.'')"
  by code_simp

text \<open>
  C2.  When the query finds no candidate element, \<open>extract_text\<close> returns no string, empty
  or not, but the condition it raises is not a dedicated one: indexing the empty ranking
  raises the built-in \<^verbatim>\<open>IndexError\<close>, as in \<open>doc_short\<close>.  Amended: with no candidate,
  \<open>extract_text\<close> raises \<^verbatim>\<open>IndexError\<close>, not \<open>EmptyExtractionError\<close>, and returns no string.
\<close>

theorem extract_text_no_candidates:
  assumes "text_finder (build_text_finder m) root = []"
  shows "extract_text root m = Inl IndexError
       \<and> extract_text root m \<noteq> Inl EmptyExtractionError
       \<and> (\<forall>r. extract_text root m \<noteq> Inr r)"
proof -
  have "get_sentence_xpath_tuples root (build_text_finder m) = []"
    using assms by (simp add: get_sentence_xpath_tuples_def)
  then have "extract_text root m = Inl IndexError" by (simp only: extract_text_Inl)
  then show ?thesis by simp
qed

theorem extract_text_no_candidates_witness:
  "text_finder (build_text_finder None) doc_short = []
   \<and> extract_text doc_short None = Inl IndexError"
proof -
  have h: "text_finder (build_text_finder None) doc_short = []" by code_simp
  show ?thesis using h extract_text_no_candidates[OF h] by simp
qed

theorem no_dedicated_condition_raised:
  "text_finder (build_text_finder None) doc_short = []
   \<and> extract_text doc_short None = Inl IndexError
   \<and> extract_text doc_short None \<noteq> Inl EmptyExtractionError"
  by code_simp

text \<open>
  C3.  A qualifying candidate element is not enough for a result: \<open>doc_heading\<close> has one,
  its text has no sentence-ending character, no unit is emitted and \<open>extract_text\<close>
  raises.  Amended: whenever at least one sentence unit is emitted, \<open>extract_text\<close>
  returns a non-empty string.
\<close>

theorem extract_text_nonempty:
  assumes "get_sentence_xpath_tuples root (build_text_finder m) \<noteq> []"
  shows "\<exists>r. extract_text root m = Inr r \<and> r \<noteq> []"
proof -
  obtain s rest where r: "retained root m = (paragraph_break @ s) # rest" "ends_sentence s"
    using retained_head[OF assms] by blast
  have "drop 2 (join '' '' (retained root m)) = join '' '' (s # rest)"
    by (simp only: r drop_marker)
  moreover have "join '' '' (s # rest) \<noteq> []"
    using r(2) by (simp add: join_not_Nil ends_sentence_not_Nil)
  ultimately show ?thesis using extract_text_Inr[OF assms] by simp
qed

theorem extract_text_nonempty_witness:
  "get_sentence_xpath_tuples doc_sibling (build_text_finder None) \<noteq> []
   \<and> (\<exists>r. extract_text doc_sibling None = Inr r \<and> r \<noteq> [])"
proof -
  have h: "get_sentence_xpath_tuples doc_sibling (build_text_finder None) \<noteq> []"
    by code_simp
  show ?thesis using h extract_text_nonempty[OF h] by simp
qed

theorem candidate_without_sentence_raises:
  "text_finder (build_text_finder None) doc_heading = [[0, 0]]
   \<and> candidate 20 doc_heading [0, 0]
   \<and> extract_text doc_heading None = Inl IndexError"
  by code_simp

subsection \<open>Selection of the candidates\<close>

text \<open>
  C4.  The query does not select by the direct text content as a whole, and not outside
  the body: in \<open>doc_split\<close> the title and the paragraph both have direct text longer than
  20 characters and neither is returned.  Amended: the query returns, in document order
  and each once, exactly the elements strictly below a body element whose own tag is none
  of script, style, i, b, strong, span, a and that have at least one text child whose own
  normalized length exceeds the threshold; the threshold is 20 by default and the given
  integer otherwise.
\<close>

theorem text_finder_candidates:
  "text_finder (build_text_finder m) root =
     filter (candidate (case m of None \<Rightarrow> 20 | Some k \<Rightarrow> k) root) (positions root)"
  by (simp add: text_finder_filter build_text_finder_def)

theorem text_finder_candidates_witness:
  "text_finder (build_text_finder None) doc_sibling = [[0, 0, 0], [0, 0, 1], [0, 0, 2], [0, 1]]
   \<and> filter (candidate 20 doc_sibling) (positions doc_sibling) =
       [[0, 0, 0], [0, 0, 1], [0, 0, 2], [0, 1]]"
proof -
  have e: "text_finder (build_text_finder None) doc_sibling = [[0, 0, 0], [0, 0, 1], [0, 0, 2], [0, 1]]"
    by code_simp
  show ?thesis using e text_finder_candidates[of None doc_sibling] by simp
qed

theorem direct_text_selection_fails:
  "filter (direct_text_candidate 20 doc_split) (positions doc_split) = [[0, 0], [1, 0]]
   \<and> text_finder (build_text_finder None) doc_split = []"
  by code_simp

subsection \<open>Ranking of the parents\<close>

text \<open>
  C5.  \<open>get_xpath_frequency_distribution\<close> maps each address to its parent by dropping
  the last step, counts the occurrences of each parent, and returns each parent once with
  its count, sorted by descending count; of two parents with the same count the one that
  occurs first in the input comes first.
\<close>

theorem frequency_distribution_ranking:
  fixes paths :: "string list"
  defines "parents \<equiv> map parent_path paths"
  defines "r \<equiv> get_xpath_frequency_distribution paths"
  shows "(\<forall>p \<in> set paths. 2 \<le> length (split_on CHR ''/'' p) \<longrightarrow>
            split_on CHR ''/'' (parent_path p) = butlast (split_on CHR ''/'' p))
       \<and> set (map fst r) = set parents \<and> distinct (map fst r)
       \<and> (\<forall>(q, c) \<in> set r. c = count_list parents q)
       \<and> sorted_wrt (\<lambda>(q, c) (q', c'). c' < c \<or> (c = c' \<and> first_index q parents < first_index q' parents)) r"
proof -
  have r: "r = most_common (Counter parents)"
    by (simp add: r_def parents_def get_xpath_frequency_distribution_def)
  have 1: "set (map fst r) = set parents"
    by (simp add: r most_common_set Counter_keys_set[simplified])
  have 2: "distinct (map fst r)"
    unfolding r by (rule most_common_keys_distinct[OF Counter_keys_distinct])
  have 3: "\<forall>(q, c) \<in> set r. c = count_list parents q"
    using Counter_count by (fastforce simp: r most_common_set)
  have "sorted_wrt (\<lambda>a b. first_index (fst a) parents < first_index (fst b) parents) (Counter parents)"
    using Counter_keys_order[of parents] by (simp add: sorted_wrt_map)
  then have "sorted_wrt (\<lambda>a b. snd b < snd a \<or> (snd a = snd b \<and>
       first_index (fst a) parents < first_index (fst b) parents)) r"
    unfolding r by (rule most_common_order)
  then have 4: "sorted_wrt (\<lambda>(q, c) (q', c'). c' < c \<or> (c = c' \<and> first_index q parents < first_index q' parents)) r"
    by (rule sorted_wrt_mono_rel[rotated]) auto
  show ?thesis using 1 2 3 4 parent_path_steps by blast
qed

theorem frequency_distribution_ranking_witness:
  "get_xpath_frequency_distribution
     [''/html/body/div[1]/p[1]'', ''/html/body/div[2]/p'', ''/html/body/div[1]/p[2]'',
      ''/html/body/div[2]/ul'', ''/html/body/h1'']
   = [(''/html/body/div[1]'', 2), (''/html/body/div[2]'', 2), (''/html/body'', 1)]
   \<and> 2 \<le> length (split_on CHR ''/'' ''/html/body/h1'')
   \<and> split_on CHR ''/'' (parent_path ''/html/body/h1'') = butlast (split_on CHR ''/'' ''/html/body/h1'')
   \<and> count_list (map parent_path
         [''/html/body/div[1]/p[1]'', ''/html/body/div[2]/p'', ''/html/body/div[1]/p[2]'',
          ''/html/body/div[2]/ul'', ''/html/body/h1'']) ''/html/body/div[2]'' = 2"
proof -
  let ?paths = "[''/html/body/div[1]/p[1]'', ''/html/body/div[2]/p'', ''/html/body/div[1]/p[2]'',
      ''/html/body/div[2]/ul'', ''/html/body/h1'']"
  have e: "get_xpath_frequency_distribution ?paths
      = [(''/html/body/div[1]'', 2), (''/html/body/div[2]'', 2), (''/html/body'', 1)]"
    by code_simp
  have l: "2 \<le> length (split_on CHR ''/'' ''/html/body/h1'')"
    by code_simp
  have m: "''/html/body/h1'' \<in> set ?paths" by simp
  have n: "(''/html/body/div[2]'', 2) \<in> set (get_xpath_frequency_distribution ?paths)"
    by (simp only: e) simp
  note t = frequency_distribution_ranking[of ?paths]
  have "split_on CHR ''/'' (parent_path ''/html/body/h1'') = butlast (split_on CHR ''/'' ''/html/body/h1'')"
    using t l m by blast
  moreover have "count_list (map parent_path ?paths) ''/html/body/div[2]'' = 2"
    using t n by fastforce
  ultimately show ?thesis using e l by simp
qed

subsection \<open>The paragraph-break marker\<close>



subsection \<open>The sentence segmenter\<close>

text \<open>
  C7.  For a text that ends in a full stop, the fragments joined with single blanks are
  the text with every occurrence of a bracketed marker dropped and every inter-sentence
  whitespace run replaced by one blank; nothing else is changed, whitespace inside a
  sentence included.
\<close>

theorem segmenter_round_trip:
  assumes "text \<noteq> []" and "last text = CHR ''.''"
  shows "join '' '' (segment text) = collapse_gaps (without_markers text)"
proof -
  have "join '' '' (segment text) = join '' '' (sentence_token_split (bracket_sub text))"
    using segment_keeps_all[OF assms] by simp
  also have "\<dots> = collapse_gaps (bracket_sub text)"
    by (rule join_split_collapse_gaps)
  also have "\<dots> = collapse_gaps (without_markers text)"
    by (simp only: bracket_sub_without_markers)
  finally show ?thesis .
qed

theorem segmenter_round_trip_witness:
  "''Water  is wet[12].   Fire is hot[3].'' \<noteq> []
   \<and> last ''Water  is wet[12].   Fire is hot[3].'' = CHR ''.''
   \<and> without_markers ''Water  is wet[12].   Fire is hot[3].'' = ''Water  is wet.   Fire is hot.''
   \<and> collapse_gaps ''Water  is wet.   Fire is hot.'' = ''Water  is wet. Fire is hot.''
   \<and> join '' '' (segment ''Water  is wet[12].   Fire is hot[3].'') = ''Water  is wet. Fire is hot.''"
proof -
  have a: "''Water  is wet[12].   Fire is hot[3].'' \<noteq> []" by simp
  have b: "last ''Water  is wet[12].   Fire is hot[3].'' = CHR ''.''" by simp
  have c: "without_markers ''Water  is wet[12].   Fire is hot[3].'' = ''Water  is wet.   Fire is hot.''"
    by code_simp
  have d: "collapse_gaps ''Water  is wet.   Fire is hot.'' = ''Water  is wet. Fire is hot.''"
    by code_simp
  have "join '' '' (segment ''Water  is wet[12].   Fire is hot[3].'')
      = collapse_gaps (without_markers ''Water  is wet[12].   Fire is hot[3].'')"
    using segmenter_round_trip[OF a b] .
  then show ?thesis using a b c d by simp
qed

text \<open>
  C8.  The text \<^verbatim>\<open>Dr. Smith won. He left.\<close> is split into the two fragments
  \<^verbatim>\<open>Dr. Smith won.\<close> and \<^verbatim>\<open>He left.\<close>: the lookbehinds fail after the abbreviation
  and hold after the full stop that ends the first sentence.
\<close>

theorem abbreviation_not_split:
  "sentence_token_split ''Dr. Smith won. He left.'' = [''Dr. Smith won.'', ''He left.'']
   \<and> segment ''Dr. Smith won. He left.'' = [''Dr. Smith won.'', ''He left.'']
   \<and> \<not> lookbehind ''Dr.''
   \<and> lookbehind ''Dr. Smith won.''"
  by code_simp

subsection \<open>The sentence units\<close>

text \<open>
  C9.  The text of every emitted unit is a non-empty fragment ending in one of the five
  sentence-ending characters, or the marker followed by such a fragment; of the units of
  one candidate the first has the marker before such a fragment, and the others are such
  fragments.
\<close>

theorem sentence_unit_invariant:
  "(\<forall>(t, x) \<in> set (get_sentence_xpath_tuples root n).
      \<exists>s. s \<noteq> [] \<and> last s \<in> set sentence_ending \<and> (t = s \<or> t = paragraph_break @ s))
   \<and> (\<forall>p \<in> set (text_finder n root).
        case sentence_pairs_of (full_text root p) (getpath root p) of
          [] \<Rightarrow> True
        | (t, x) # us \<Rightarrow>
            (\<exists>s. s \<noteq> [] \<and> last s \<in> set sentence_ending \<and> t = paragraph_break @ s)
            \<and> (\<forall>(t', x') \<in> set us. t' \<noteq> [] \<and> last t' \<in> set sentence_ending))"
proof -
  have a: "\<exists>s. s \<noteq> [] \<and> last s \<in> set sentence_ending \<and> (t = s \<or> t = paragraph_break @ s)"
    if "(t, x) \<in> set (get_sentence_xpath_tuples root n)" for t x
  proof -
    from that obtain p where "t \<in> set (mark_first (segment (full_text root p)))"
      unfolding get_sentence_xpath_tuples_blocks by auto
    then obtain s where s: "s \<in> set (segment (full_text root p))" "t = s \<or> t = paragraph_break @ s"
      using mark_first_cases by blast
    then have "s \<noteq> [] \<and> last s \<in> set sentence_ending"
      using segment_ends[of s] by (simp add: ends_sentence_iff)
    with s(2) show ?thesis by blast
  qed
  have b: "case sentence_pairs_of tx path of
          [] \<Rightarrow> True
        | (t, x) # us \<Rightarrow>
            (\<exists>s. s \<noteq> [] \<and> last s \<in> set sentence_ending \<and> t = paragraph_break @ s)
            \<and> (\<forall>(t', x') \<in> set us. t' \<noteq> [] \<and> last t' \<in> set sentence_ending)" for tx path
  proof (cases "segment tx")
    case Nil
    then show ?thesis by (simp add: sentence_pairs_of_mark_first)
  next
    case (Cons f fs)
    then have "\<forall>s \<in> set (f # fs). s \<noteq> [] \<and> last s \<in> set sentence_ending"
      using segment_ends[of _ tx] by (simp add: ends_sentence_iff)
    then show ?thesis using Cons by (auto simp: sentence_pairs_of_mark_first)
  qed
  show ?thesis using a b by blast
qed

theorem sentence_unit_invariant_witness:
  "get_sentence_xpath_tuples doc_two_texts 20 =
     [(paragraph_break @ ''First long text node of the paragraph.'', ''/html/body/div/p''),
      (''bold Second long text node of the paragraph.'', ''/html/body/div/p'')]
   \<and> (\<exists>s. s \<noteq> [] \<and> last s \<in> set sentence_ending
          \<and> (''bold Second long text node of the paragraph.'' = s
              \<or> ''bold Second long text node of the paragraph.'' = paragraph_break @ s))"
proof -
  have e: "get_sentence_xpath_tuples doc_two_texts 20 =
     [(paragraph_break @ ''First long text node of the paragraph.'', ''/html/body/div/p''),
      (''bold Second long text node of the paragraph.'', ''/html/body/div/p'')]"
    by code_simp
  have "(''bold Second long text node of the paragraph.'', ''/html/body/div/p'')
      \<in> set (get_sentence_xpath_tuples doc_two_texts 20)"
    by (simp only: e) simp
  then have "\<exists>s. s \<noteq> [] \<and> last s \<in> set sentence_ending
          \<and> (''bold Second long text node of the paragraph.'' = s
              \<or> ''bold Second long text node of the paragraph.'' = paragraph_break @ s)"
    using sentence_unit_invariant[of doc_two_texts 20] by fast
  with e show ?thesis by blast
qed

subsection \<open>Elements with several long text nodes\<close>

text \<open>
  C10.  An element with two long text children is not a candidate twice: the result of
  the query is a node-set.  In \<open>doc_two_texts\<close> the paragraph has two such children, it is
  selected once, its two units are emitted once and its parent is counted twice, once
  per unit.  Amended: an element that the query selects occurs once among the candidates,
  however many of its text children exceed the threshold; its units are emitted once, and
  a parent address is counted once for every emitted unit whose address it is the parent
  of.
\<close>

theorem candidates_occur_once:
  "count_list (text_finder n root) p = (if candidate n root p then 1 else 0)
   \<and> distinct (text_finder n root)
   \<and> get_sentence_xpath_tuples root n =
       concat (map (\<lambda>p. sentence_pairs_of (full_text root p) (getpath root p))
                   (filter (candidate n root) (positions root)))
   \<and> distinct (positions root)
   \<and> (\<forall>(q, c) \<in> set (get_xpath_frequency_distribution (map snd (get_sentence_xpath_tuples root n))).
        c = count_list (map (\<lambda>u. parent_path (snd u)) (get_sentence_xpath_tuples root n)) q)"
proof -
  have "distinct (positions root)"
    using positions_sorted(1)[of root] by (simp add: strict_sorted_iff)
  moreover have "get_sentence_xpath_tuples root n =
       concat (map (\<lambda>p. sentence_pairs_of (full_text root p) (getpath root p))
                   (filter (candidate n root) (positions root)))"
    by (simp add: get_sentence_xpath_tuples_def text_finder_filter)
  moreover have "\<forall>(q, c) \<in> set (get_xpath_frequency_distribution (map snd (get_sentence_xpath_tuples root n))).
        c = count_list (map (\<lambda>u. parent_path (snd u)) (get_sentence_xpath_tuples root n)) q"
    using frequency_distribution_counts[of _ _ "map snd (get_sentence_xpath_tuples root n)"]
    by (auto simp: comp_def)
  ultimately show ?thesis using text_finder_distinct text_finder_count by blast
qed

theorem candidates_occur_once_witness:
  "get_xpath_frequency_distribution (map snd (get_sentence_xpath_tuples doc_two_texts 20))
     = [(''/html/body/div'', 2)]
   \<and> count_list (map (\<lambda>u. parent_path (snd u)) (get_sentence_xpath_tuples doc_two_texts 20))
        ''/html/body/div'' = 2
   \<and> candidate 20 doc_two_texts [0, 0, 0]
   \<and> count_list (text_finder 20 doc_two_texts) [0, 0, 0] = 1"
proof -
  have c: "candidate 20 doc_two_texts [0, 0, 0]" by code_simp
  have e: "get_xpath_frequency_distribution (map snd (get_sentence_xpath_tuples doc_two_texts 20))
     = [(''/html/body/div'', 2)]"
    by code_simp
  have "(''/html/body/div'', 2)
      \<in> set (get_xpath_frequency_distribution (map snd (get_sentence_xpath_tuples doc_two_texts 20)))"
    by (simp only: e) simp
  then have "count_list (map (\<lambda>u. parent_path (snd u)) (get_sentence_xpath_tuples doc_two_texts 20))
        ''/html/body/div'' = 2"
    using candidates_occur_once[of 20 doc_two_texts] by fastforce
  moreover have "count_list (text_finder 20 doc_two_texts) [0, 0, 0] = 1"
    using c candidates_occur_once[of 20 doc_two_texts "[0, 0, 0]"] by simp
  ultimately show ?thesis using e c by blast
qed

theorem element_with_two_long_texts_selected_once:
  "filter (long_text 20 doc_two_texts) (text_children doc_two_texts [0, 0, 0])
     = [[0, 0, 0, 0], [0, 0, 0, 2]]
   \<and> text_finder 20 doc_two_texts = [[0, 0, 0]]
   \<and> get_sentence_xpath_tuples doc_two_texts 20 =
       [(paragraph_break @ ''First long text node of the paragraph.'', ''/html/body/div/p''),
        (''bold Second long text node of the paragraph.'', ''/html/body/div/p'')]
   \<and> get_xpath_frequency_distribution (map snd (get_sentence_xpath_tuples doc_two_texts 20))
       = [(''/html/body/div'', 2)]"
  by code_simp

end
